theory Spec2Isabelle
  imports Complex_Main
begin

section \<open>Game engine (src/services/gameEngine.ts)\<close>

text \<open>
  A board is the \<open>string[]\<close> of the source: a cell is \<open>''''\<close> (empty), \<open>''X''\<close> or
  \<open>''O''\<close>. The two players are the string literal type \<open>"X" | "O"\<close>.
\<close>

type_synonym board = "string list"

datatype player = PlayerX | PlayerO

fun sym :: "player \<Rightarrow> string" where
  "sym PlayerX = ''X''"
| "sym PlayerO = ''O''"

definition winningLines :: "nat list list" where
  "winningLines =
     [[0, 1, 2], [3, 4, 5], [6, 7, 8],
      [0, 3, 6], [1, 4, 7], [2, 5, 8],
      [0, 4, 8], [2, 4, 6]]"

text \<open>\<open>board[i]\<close>: reading past the end of a JavaScript array gives \<open>undefined\<close> (here \<open>None\<close>).\<close>

definition cellAt :: "board \<Rightarrow> nat \<Rightarrow> string option" where
  "cellAt board i = (if i < length board then Some (board ! i) else None)"

text \<open>Truthiness of a cell value: \<open>undefined\<close> and the empty string are falsy.\<close>

fun truthy :: "string option \<Rightarrow> bool" where
  "truthy None = False"
| "truthy (Some s) = (s \<noteq> [])"

text \<open>
  The test of the loop body, after \<open>const [a, b, c] = line\<close>:
  \<open>board[a] && board[a] === board[b] && board[a] === board[c]\<close>.
\<close>

fun lineHit :: "board \<Rightarrow> nat list \<Rightarrow> bool" where
  "lineHit board (a # b # c # rest) =
     (truthy (cellAt board a) \<and> cellAt board a = cellAt board b \<and> cellAt board a = cellAt board c)"
| "lineHit board line = False"

text \<open>The \<open>for (const line of this.winningLines)\<close> loop of \<open>checkWinner\<close>; \<open>None\<close> is \<open>null\<close>.\<close>

fun checkLines :: "nat list list \<Rightarrow> board \<Rightarrow> string option" where
  "checkLines [] board = None"
| "checkLines (line # rest) board =
     (if lineHit board line then cellAt board (hd line) else checkLines rest board)"

definition checkWinner :: "board \<Rightarrow> string option" where
  "checkWinner board = checkLines winningLines board"

fun findLine :: "nat list list \<Rightarrow> board \<Rightarrow> nat list option" where
  "findLine [] board = None"
| "findLine (line # rest) board =
     (if lineHit board line then Some line else findLine rest board)"

definition getWinningLine :: "board \<Rightarrow> nat list option" where
  "getWinningLine board = findLine winningLines board"

definition isDraw :: "board \<Rightarrow> bool" where
  "isDraw board = (list_all (\<lambda>cell. cell \<noteq> []) board \<and> checkWinner board = None)"

definition getAvailableMoves :: "board \<Rightarrow> nat list" where
  "getAvailableMoves board = filter (\<lambda>i. board ! i = []) [0..<length board]"

text \<open>
  \<open>applyMove\<close>: \<open>None\<close> is \<open>{ valid: false }\<close>. A position past the end of the array reads
  \<open>undefined\<close>, which is \<open>!== ""\<close>, so the move is invalid.
\<close>

definition applyMove :: "board \<Rightarrow> int \<Rightarrow> player \<Rightarrow> board option" where
  "applyMove board position' player' =
     (if position' < 0 \<or> position' > 8 then None
      else if cellAt board (nat position') \<noteq> Some [] then None
      else Some (board[nat position' := sym player']))"

text \<open>
  The move objects the engine receives. The engine reads \<open>position\<close>, \<open>player\<close>,
  \<open>expiredOnMove\<close> and (for the aging state) \<open>moveNumber\<close>; move numbers and positions
  are whole numbers.
\<close>

record emove =
  moveNumber :: int
  position :: int
  player :: player
  expiredOnMove :: "int option"

definition placeMove :: "board \<Rightarrow> emove \<Rightarrow> board" where
  "placeMove board move =
     (if position move \<ge> 0 \<and> position move < 9
      then board[nat (position move) := sym (player move)] else board)"

definition getBoardFromMoves :: "emove list \<Rightarrow> board" where
  "getBoardFromMoves moves = foldl placeMove (replicate 9 []) moves"

text \<open>The filter of \<open>getActiveBoardFromMoves\<close> and \<open>getAgingState\<close>.\<close>

definition isActive :: "int \<Rightarrow> emove \<Rightarrow> bool" where
  "isActive currentMoveNumber m =
     (case expiredOnMove m of None \<Rightarrow> True | Some e \<Rightarrow> e > currentMoveNumber)"

definition getActiveBoardFromMoves :: "emove list \<Rightarrow> int \<Rightarrow> board" where
  "getActiveBoardFromMoves moves currentMoveNumber =
     getBoardFromMoves (filter (isActive currentMoveNumber) moves)"

record agingCell =
  cellPosition :: int
  cellPlayer :: player
  age :: int
  expiresIn :: int

definition getAgingState :: "emove list \<Rightarrow> int \<Rightarrow> int \<Rightarrow> agingCell list" where
  "getAgingState moves currentMoveNumber maxAge' =
     map (\<lambda>m. \<lparr> cellPosition = position m, cellPlayer = player m,
                age = max 1 (currentMoveNumber - moveNumber m + 1),
                expiresIn = max 0 (moveNumber m + maxAge' - currentMoveNumber) \<rparr>)
       (filter (isActive currentMoveNumber) moves)"

subsection \<open>The specification's vocabulary\<close>

text \<open>
  A line of a 9-cell board is filled identically when its three cells are non-empty and
  hold the same symbol.
\<close>

definition filledIdentically :: "board \<Rightarrow> nat list \<Rightarrow> bool" where
  "filledIdentically b l =
     (b ! (l ! 0) \<noteq> [] \<and> b ! (l ! 0) = b ! (l ! 1) \<and> b ! (l ! 0) = b ! (l ! 2))"

text \<open>A board on which two lines are filled, by different symbols.\<close>

definition twoLinesBoard :: board where
  "twoLinesBoard = [''O'', ''O'', ''O'', [], [], [], ''X'', ''X'', ''X'']"

text \<open>A board on which \<open>X\<close> has filled the top row.\<close>

definition topRowBoard :: board where
  "topRowBoard = [''X'', ''X'', ''X'', ''O'', ''O'', [], [], [], []]"

text \<open>A move is expired at a move number when its \<open>expiredOnMove\<close> is set and not later.\<close>

definition expiredBy :: "int \<Rightarrow> emove \<Rightarrow> bool" where
  "expiredBy n m = (case expiredOnMove m of None \<Rightarrow> False | Some e \<Rightarrow> e \<le> n)"

text \<open>The last move of a list, in list order, that is placed on cell \<open>i\<close>.\<close>

definition lastMoveAt :: "emove list \<Rightarrow> nat \<Rightarrow> emove option" where
  "lastMoveAt ms i =
     (case rev (filter (\<lambda>m. position m = int i) ms) of [] \<Rightarrow> None | m # rest \<Rightarrow> Some m)"

text \<open>The two moves of the specification's aging example.\<close>

definition agingExample :: "emove list" where
  "agingExample =
     [\<lparr> moveNumber = 1, position = 0, player = PlayerX, expiredOnMove = Some 3 \<rparr>,
      \<lparr> moveNumber = 2, position = 4, player = PlayerO, expiredOnMove = None \<rparr>]"

section \<open>Progression ladder (src/config/progression.ts)\<close>

datatype rankKey = beginner | intermediate | advanced | master

text \<open>
  A \<open>StageDef\<close>: \<open>stage_min\<close> is inclusive, \<open>stage_max\<close> exclusive, and \<open>None\<close> (the
  source's \<open>null\<close>) means the top cap. Points are whole numbers.
\<close>

record stageDef =
  rank :: rankKey
  stage :: nat
  label :: string
  stage_min :: int
  stage_max :: "int option"

datatype outcome = win | lose | draw

fun POINT_REWARDS :: "outcome \<Rightarrow> int" where
  "POINT_REWARDS win = 25"
| "POINT_REWARDS lose = 10"
| "POINT_REWARDS draw = 10"

definition STAGES :: "stageDef list" where
  "STAGES =
    [\<lparr> rank = beginner, stage = 1, label = ''Beginner 1'', stage_min = 0, stage_max = Some 100 \<rparr>,
     \<lparr> rank = beginner, stage = 2, label = ''Beginner 2'', stage_min = 100, stage_max = Some 300 \<rparr>,
     \<lparr> rank = beginner, stage = 3, label = ''Beginner 3'', stage_min = 300, stage_max = Some 600 \<rparr>,
     \<lparr> rank = intermediate, stage = 1, label = ''Intermediate 1'', stage_min = 600,
       stage_max = Some 1000 \<rparr>,
     \<lparr> rank = intermediate, stage = 2, label = ''Intermediate 2'', stage_min = 1000,
       stage_max = Some 1500 \<rparr>,
     \<lparr> rank = intermediate, stage = 3, label = ''Intermediate 3'', stage_min = 1500,
       stage_max = Some 2500 \<rparr>,
     \<lparr> rank = advanced, stage = 1, label = ''Advanced 1'', stage_min = 2500, stage_max = Some 4000 \<rparr>,
     \<lparr> rank = advanced, stage = 2, label = ''Advanced 2'', stage_min = 4000, stage_max = Some 6000 \<rparr>,
     \<lparr> rank = advanced, stage = 3, label = ''Advanced 3'', stage_min = 6000, stage_max = Some 9000 \<rparr>,
     \<lparr> rank = master, stage = 1, label = ''Master 1'', stage_min = 9000, stage_max = Some 13000 \<rparr>,
     \<lparr> rank = master, stage = 2, label = ''Master 2'', stage_min = 13000, stage_max = Some 18000 \<rparr>,
     \<lparr> rank = master, stage = 3, label = ''Master 3'', stage_min = 18000, stage_max = None \<rparr>]"

text \<open>The predicate of \<open>STAGES.find\<close> in \<open>findStageForPoints\<close>.\<close>

definition stageHolds :: "int \<Rightarrow> stageDef \<Rightarrow> bool" where
  "stageHolds points s =
     (points \<ge> stage_min s \<and> (case stage_max s of None \<Rightarrow> True | Some m \<Rightarrow> points < m))"

definition findStageForPoints :: "int \<Rightarrow> stageDef" where
  "findStageForPoints points =
     (case find (stageHolds points) STAGES of
        Some s \<Rightarrow> s
      | None \<Rightarrow> STAGES ! (length STAGES - 1))"

text \<open>\<open>Array.prototype.findIndex\<close>; \<open>None\<close> is the result \<open>-1\<close>.\<close>

fun findIndex :: "('a \<Rightarrow> bool) \<Rightarrow> 'a list \<Rightarrow> nat option" where
  "findIndex P [] = None"
| "findIndex P (x # xs) = (if P x then Some 0 else map_option Suc (findIndex P xs))"

definition getNextStage :: "stageDef option \<Rightarrow> stageDef option" where
  "getNextStage current =
     (case current of
        None \<Rightarrow> Some (STAGES ! 0)
      | Some cur \<Rightarrow>
          (case findIndex (\<lambda>s. rank s = rank cur \<and> stage s = stage cur) STAGES of
             None \<Rightarrow> Some (STAGES ! 0)
           | Some idx \<Rightarrow> if idx + 1 < length STAGES then Some (STAGES ! (idx + 1)) else None))"

subsection \<open>Double-precision arithmetic of \<open>getProgressPercent\<close>\<close>

text \<open>
  \<open>Math.round((progressed / span) * 100)\<close> is computed on IEEE-754 doubles: the quotient
  is rounded to the nearest double (ties to even), and so is the product. A positive
  double is written \<open>(m, e)\<close> for the value \<open>m * 2 ^ e\<close> with a mantissa \<open>m\<close> of 53 bits.
  The operands here are whole numbers below \<open>2 ^ 53\<close>, which are doubles themselves, and
  the results stay far from overflow and underflow.
\<close>

type_synonym dbl = "int \<times> int"

definition dval :: "dbl \<Rightarrow> rat" where
  "dval d = (if snd d \<ge> 0 then of_int (fst d) * 2 ^ nat (snd d)
             else of_int (fst d) / 2 ^ nat (- snd d))"

text \<open>The integer nearest to \<open>a / b\<close> for \<open>b > 0\<close>, ties going to the even one.\<close>

definition roundHalfEven :: "int \<Rightarrow> int \<Rightarrow> int" where
  "roundHalfEven a b =
     (let q = a div b; r = a mod b
      in if 2 * r < b then q
         else if 2 * r > b then q + 1
         else if even q then q else q + 1)"

text \<open>The number of binary digits of a positive whole number.\<close>

function bitLength :: "int \<Rightarrow> nat" where
  "bitLength a = (if a \<le> 0 then 0 else Suc (bitLength (a div 2)))"
  by pat_completeness auto
termination
  by (relation "measure nat") auto

text \<open>The exponent \<open>e\<close> with \<open>2 ^ e \<le> a / b < 2 ^ (e + 1)\<close>, for positive \<open>a\<close> and \<open>b\<close>.\<close>

definition ilog2 :: "int \<Rightarrow> int \<Rightarrow> int" where
  "ilog2 a b =
     (let d = int (bitLength a) - int (bitLength b)
      in if d \<ge> 0 then (if a \<ge> b * 2 ^ nat d then d else d - 1)
         else (if a * 2 ^ nat (- d) \<ge> b then d else d - 1))"

text \<open>The double nearest to \<open>a / b\<close>, for \<open>a \<ge> 0\<close> and \<open>b > 0\<close>.\<close>

definition roundDouble :: "int \<Rightarrow> int \<Rightarrow> dbl" where
  "roundDouble a b =
     (if a = 0 then (0, 0)
      else let sh = 52 - ilog2 a b
           in if sh \<ge> 0 then (roundHalfEven (a * 2 ^ nat sh) b, - sh)
              else (roundHalfEven a (b * 2 ^ nat (- sh)), - sh))"

text \<open>\<open>progressed / span\<close> on two whole numbers.\<close>

definition fdiv :: "int \<Rightarrow> int \<Rightarrow> dbl" where
  "fdiv p s = roundDouble p s"

text \<open>\<open>x * 100\<close>: the exact product \<open>100 * m * 2 ^ e\<close>, rounded.\<close>

definition fmul100 :: "dbl \<Rightarrow> dbl" where
  "fmul100 x = (case roundDouble (100 * fst x) 1 of (m, e) \<Rightarrow> (m, e + snd x))"

text \<open>\<open>Math.round\<close>: the nearest integer, ties going up, that is \<open>floor (x + 1 / 2)\<close>.\<close>

definition mathRound :: "dbl \<Rightarrow> int" where
  "mathRound x =
     (if snd x \<ge> 0 then fst x * 2 ^ nat (snd x)
      else (2 * fst x + 2 ^ nat (- snd x)) div 2 ^ (nat (- snd x) + 1))"

text \<open>
  The clocks of a game are doubles as well. The double nearest to a rational number, of
  the magnitudes the clocks take (far from overflow and underflow):
\<close>

definition roundRat :: "rat \<Rightarrow> rat" where
  "roundRat q =
     (case quotient_of q of
        (a, b) \<Rightarrow> if a = 0 then 0
                  else if a > 0 then dval (roundDouble a b)
                  else - dval (roundDouble (- a) b))"

text \<open>
  \<open>getProgressPercent\<close>; \<open>None\<close> is the result \<open>NaN\<close> (a zero span with nothing progressed:
  \<open>0 / 0\<close>). A zero span with progress divides to \<open>Infinity\<close>, clamped to 100; a negative span
  gives a quotient that is not positive, clamped to 0.
\<close>

definition getProgressPercent :: "int \<Rightarrow> stageDef \<Rightarrow> int option" where
  "getProgressPercent points current =
     (case stage_max current of
        None \<Rightarrow> Some 100
      | Some mx \<Rightarrow>
          let span = mx - stage_min current;
              progressed = max 0 (points - stage_min current)
          in if span = 0 then (if progressed = 0 then None else Some 100)
             else if span < 0 then Some 0
             else Some (max 0 (min 100 (mathRound (fmul100 (fdiv progressed span))))))"

text \<open>The specification's formula: the exact quotient, rounded half up, clamped.\<close>

definition exactPercent :: "int \<Rightarrow> int \<Rightarrow> int \<Rightarrow> int" where
  "exactPercent points mn mx =
     max 0 (min 100 (\<lfloor>(100 * of_int (points - mn) / of_int (mx - mn) :: rat) + 1 / 2\<rfloor>))"

text \<open>
  What the code computes where the exact percentage is \<open>k + 1 / 2\<close>, that is where
  \<open>progressed / span\<close> is \<open>(2 * k + 1) / 200\<close>.
\<close>

definition tieValue :: "int \<Rightarrow> int" where
  "tieValue k = mathRound (fmul100 (fdiv (2 * k + 1) 200))"

text \<open>
  The exact percentage \<open>100 * (points - mn) / (mx - mn)\<close> is one of 14.5, 28.5, 56.5 and
  57.5.
\<close>

definition lowTie :: "int \<Rightarrow> int \<Rightarrow> int \<Rightarrow> bool" where
  "lowTie points mn mx =
     (200 * (points - mn) \<in> {29 * (mx - mn), 57 * (mx - mn), 113 * (mx - mn), 115 * (mx - mn)})"

text \<open>Two stages of the table: the second and the last.\<close>

definition beginnerTwo :: stageDef where
  "beginnerTwo = STAGES ! 1"

definition masterThree :: stageDef where
  "masterThree = STAGES ! 11"

section \<open>Users, progression service and achievements\<close>

type_synonym objectId = string

record userStats =
  gamesPlayed :: int
  totalWins :: int
  totalLoses :: int
  totalDraws :: int
  currentWinStreak :: int
  currentLossStreak :: int
  longestWinStreak :: int
  expertAiWins :: int

text \<open>
  The denormalised skill snapshot stored on a user. Its fields are nested paths of the
  schema with no default, so each can be absent on a stored user.
\<close>

record skillSnapshot =
  snapRank :: "rankKey option"
  snapStage :: "nat option"
  snapLabel :: "string option"

record user =
  skillPoints :: "int option"
  currentSkill :: "skillSnapshot option"
  currentSkillAchievedAt :: "int option"
  nextSkill :: "skillSnapshot option"
  pointsToNextLevel :: int
  stats :: userStats

record progressSnapshot =
  current :: stageDef
  nextStage :: "stageDef option"
  progressPercent :: "int option"
  snapPointsToNextLevel :: int

definition getProgressForPoints :: "int \<Rightarrow> progressSnapshot" where
  "getProgressForPoints points =
     (let cur = findStageForPoints points
      in \<lparr> current = cur,
           nextStage = getNextStage (Some cur),
           progressPercent = getProgressPercent points cur,
           snapPointsToNextLevel =
             (case stage_max cur of None \<Rightarrow> 0 | Some mx \<Rightarrow> max 0 (mx - points)) \<rparr>)"

text \<open>
  The object \<open>applyGameResult\<close> returns; the fields after \<open>leveledUp\<close> are absent when
  the user is missing.
\<close>

record progressResult =
  updated :: bool
  leveledUp :: bool
  reward :: "int option"
  resultCurrent :: "stageDef option"
  resultNext :: "stageDef option"
  resultPointsToNextLevel :: "int option"
  resultSkillPoints :: "int option"
  previousSkill :: "string option"

definition snapshotOf :: "stageDef \<Rightarrow> skillSnapshot" where
  "snapshotOf s = \<lparr> snapRank = Some (rank s), snapStage = Some (stage s), snapLabel = Some (label s) \<rparr>"

text \<open>\<open>user.currentSkill?.label ?? null\<close>.\<close>

definition prevLabelOf :: "user \<Rightarrow> string option" where
  "prevLabelOf u = (case currentSkill u of None \<Rightarrow> None | Some k \<Rightarrow> snapLabel k)"

text \<open>
  \<open>applyGameResult\<close> on the user collection; \<open>now\<close> is the clock read by \<open>new Date()\<close>.
  The result is the returned object and the collection after \<open>user.save()\<close>.
\<close>

definition applyGameResult ::
    "(objectId \<rightharpoonup> user) \<Rightarrow> objectId \<Rightarrow> outcome \<Rightarrow> int \<Rightarrow> progressResult \<times> (objectId \<rightharpoonup> user)" where
  "applyGameResult users userId outcome' now =
     (let reward' = POINT_REWARDS outcome'
      in case users userId of
           None \<Rightarrow>
             (\<lparr> updated = False, leveledUp = False, reward = None, resultCurrent = None,
                resultNext = None, resultPointsToNextLevel = None, resultSkillPoints = None,
                previousSkill = None \<rparr>, users)
         | Some u \<Rightarrow>
             let prevPoints = (case skillPoints u of None \<Rightarrow> 0 | Some p \<Rightarrow> p);
                 newPoints = prevPoints + reward';
                 prevLabel = prevLabelOf u;
                 snap = getProgressForPoints newPoints;
                 leveled = (prevLabel \<noteq> Some (label (current snap)));
                 u' = u \<lparr> skillPoints := Some newPoints,
                          currentSkill := Some (snapshotOf (current snap)),
                          nextSkill := map_option snapshotOf (nextStage snap),
                          pointsToNextLevel := snapPointsToNextLevel snap,
                          currentSkillAchievedAt :=
                            (if leveled then Some now else currentSkillAchievedAt u) \<rparr>
             in (\<lparr> updated = True, leveledUp = leveled, reward = Some reward',
                   resultCurrent = Some (current snap), resultNext = nextStage snap,
                   resultPointsToNextLevel = Some (snapPointsToNextLevel snap),
                   resultSkillPoints = Some newPoints, previousSkill = prevLabel \<rparr>,
                 users(userId \<mapsto> u')))"

subsection \<open>Achievement catalogue and unlock records\<close>

record achievementDef =
  achId :: string
  achTitle :: string
  achTarget :: int
  achProgress :: "user \<Rightarrow> int"
  achCondition :: "user \<Rightarrow> bool"

definition ACHIEVEMENTS :: "achievementDef list" where
  "ACHIEVEMENTS =
    [\<lparr> achId = ''FIRST_WIN'', achTitle = ''First Victory'', achTarget = 1,
       achProgress = (\<lambda>u. if totalWins (stats u) > 0 then 1 else 0),
       achCondition = (\<lambda>u. totalWins (stats u) \<ge> 1) \<rparr>,
     \<lparr> achId = ''WIN_STREAK_5'', achTitle = ''On Fire'', achTarget = 5,
       achProgress = (\<lambda>u. min (currentWinStreak (stats u)) 5),
       achCondition = (\<lambda>u. currentWinStreak (stats u) \<ge> 5) \<rparr>,
     \<lparr> achId = ''GAMES_50'', achTitle = ''Dedicated Player'', achTarget = 50,
       achProgress = (\<lambda>u. min (gamesPlayed (stats u)) 50),
       achCondition = (\<lambda>u. gamesPlayed (stats u) \<ge> 50) \<rparr>,
     \<lparr> achId = ''HARD_AI_10'', achTitle = ''AI Master'', achTarget = 10,
       achProgress = (\<lambda>u. min (expertAiWins (stats u)) 10),
       achCondition = (\<lambda>u. expertAiWins (stats u) \<ge> 10) \<rparr>,
     \<lparr> achId = ''WIN_STREAK_10'', achTitle = ''Unstoppable'', achTarget = 10,
       achProgress = (\<lambda>u. min (currentWinStreak (stats u)) 10),
       achCondition = (\<lambda>u. currentWinStreak (stats u) \<ge> 10) \<rparr>,
     \<lparr> achId = ''GAMES_100'', achTitle = ''Legend'', achTarget = 100,
       achProgress = (\<lambda>u. min (gamesPlayed (stats u)) 100),
       achCondition = (\<lambda>u. gamesPlayed (stats u) \<ge> 100) \<rparr>]"

record userAchievement =
  uaUserId :: objectId
  uaAchievementId :: string
  unlockedAt :: int
  seenByUser :: bool
  seenAt :: "int option"

text \<open>An entry of the list \<open>checkAndUnlockAchievements\<close> returns.\<close>

record newAchievement =
  newAchievementId :: string
  newUnlockedAt :: int

text \<open>\<open>UserAchievement.findOne({ userId, achievementId })\<close>.\<close>

definition findUnlock :: "userAchievement list \<Rightarrow> objectId \<Rightarrow> string \<Rightarrow> userAchievement option" where
  "findUnlock records userId aid =
     find (\<lambda>r. uaUserId r = userId \<and> uaAchievementId r = aid) records"

text \<open>
  One turn of the loop over the catalogue: the state is the list of new achievements and
  the collection of unlock records.
\<close>

definition unlockStep ::
    "user \<Rightarrow> objectId \<Rightarrow> int \<Rightarrow> newAchievement list \<times> userAchievement list \<Rightarrow> achievementDef \<Rightarrow>
     newAchievement list \<times> userAchievement list" where
  "unlockStep u userId now st d =
     (case findUnlock (snd st) userId (achId d) of
        Some existing \<Rightarrow> st
      | None \<Rightarrow>
          if achCondition d u
          then (fst st @ [\<lparr> newAchievementId = achId d, newUnlockedAt = now \<rparr>],
                snd st @ [\<lparr> uaUserId = userId, uaAchievementId = achId d, unlockedAt = now,
                            seenByUser = False, seenAt = None \<rparr>])
          else st)"

definition checkAndUnlockAchievements ::
    "(objectId \<rightharpoonup> user) \<Rightarrow> userAchievement list \<Rightarrow> objectId \<Rightarrow> int \<Rightarrow>
     newAchievement list \<times> userAchievement list" where
  "checkAndUnlockAchievements users records userId now =
     (case users userId of
        None \<Rightarrow> ([], records)
      | Some u \<Rightarrow> foldl (unlockStep u userId now) ([], records) ACHIEVEMENTS)"

text \<open>The number of unlock records of a user for an achievement.\<close>

definition unlockCount :: "userAchievement list \<Rightarrow> objectId \<Rightarrow> string \<Rightarrow> nat" where
  "unlockCount records userId aid =
     length (filter (\<lambda>r. uaUserId r = userId \<and> uaAchievementId r = aid) records)"

text \<open>
  A user as first stored: no points yet, statistics at their defaults, and the nested
  \<open>currentSkill\<close> without a label.
\<close>

definition newUser :: user where
  "newUser =
     \<lparr> skillPoints = Some 0,
       currentSkill = Some \<lparr> snapRank = None, snapStage = None, snapLabel = None \<rparr>,
       currentSkillAchievedAt = None,
       nextSkill = None,
       pointsToNextLevel = 0,
       stats = \<lparr> gamesPlayed = 0, totalWins = 0, totalLoses = 0, totalDraws = 0,
                 currentWinStreak = 0, currentLossStreak = 0, longestWinStreak = 0,
                 expertAiWins = 0 \<rparr> \<rparr>"

text \<open>The unlock record \<open>UserAchievement.create\<close> stores for a returned entry.\<close>

definition recordOf :: "objectId \<Rightarrow> newAchievement \<Rightarrow> userAchievement" where
  "recordOf userId n =
     \<lparr> uaUserId = userId, uaAchievementId = newAchievementId n,
       unlockedAt = newUnlockedAt n, seenByUser = False, seenAt = None \<rparr>"

text \<open>A user with one win, and a store that holds only that user.\<close>

definition oneWinUser :: user where
  "oneWinUser = newUser \<lparr> stats := (stats newUser) \<lparr> gamesPlayed := 1, totalWins := 1,
                                                     currentWinStreak := 1,
                                                     longestWinStreak := 1 \<rparr> \<rparr>"

section \<open>AI service (aiService.ts)\<close>

datatype difficulty = easy | medium | hard

fun difficultyDepths :: "difficulty \<Rightarrow> nat" where
  "difficultyDepths easy = 1"
| "difficultyDepths medium = 3"
| "difficultyDepths hard = 5"

text \<open>Scores are the numbers 10, 0 and -10, and the two infinities the search starts from.\<close>

datatype scoreVal = NegInfinity | Fin int | PosInfinity

fun scoreLess :: "scoreVal \<Rightarrow> scoreVal \<Rightarrow> bool" where
  "scoreLess NegInfinity NegInfinity = False"
| "scoreLess NegInfinity y = True"
| "scoreLess (Fin a) (Fin b) = (a < b)"
| "scoreLess (Fin a) PosInfinity = True"
| "scoreLess x y = False"

record searchResult =
  score :: scoreVal
  index :: int

text \<open>The body of the loop over the available moves, given the score of the move.\<close>

definition pickBetter :: "bool \<Rightarrow> (nat \<Rightarrow> scoreVal) \<Rightarrow> searchResult \<Rightarrow> nat \<Rightarrow> searchResult" where
  "pickBetter isMaximizing scoreOf best move =
     (if isMaximizing \<and> scoreLess (score best) (scoreOf move)
      then \<lparr> score = scoreOf move, index = int move \<rparr>
      else if \<not> isMaximizing \<and> scoreLess (scoreOf move) (score best)
      then \<lparr> score = scoreOf move, index = int move \<rparr>
      else best)"

fun minimax :: "board \<Rightarrow> nat \<Rightarrow> bool \<Rightarrow> searchResult" where
  "minimax board depth isMaximizing =
     (if checkWinner board = Some ''O'' then \<lparr> score = Fin 10, index = - 1 \<rparr>
      else if checkWinner board = Some ''X'' then \<lparr> score = Fin (- 10), index = - 1 \<rparr>
      else if isDraw board \<or> depth = 0 then \<lparr> score = Fin 0, index = - 1 \<rparr>
      else foldl
             (pickBetter isMaximizing
                (\<lambda>move. score (minimax (board[move := (if isMaximizing then ''O'' else ''X'')])
                                 (depth - 1) (\<not> isMaximizing))))
             \<lparr> score = (if isMaximizing then NegInfinity else PosInfinity), index = - 1 \<rparr>
             (getAvailableMoves board))"

definition getBestMove :: "board \<Rightarrow> difficulty \<Rightarrow> int" where
  "getBestMove board difficulty' = index (minimax board (difficultyDepths difficulty') True)"

text \<open>The value the search gives to \<open>O\<close> playing a cell, with the rest of the lookahead.\<close>

definition moveScore :: "board \<Rightarrow> difficulty \<Rightarrow> nat \<Rightarrow> scoreVal" where
  "moveScore board difficulty' move =
     score (minimax (board[move := ''O'']) (difficultyDepths difficulty' - 1) False)"

text \<open>A cell is immediately winning for \<open>O\<close> when it is empty and \<open>O\<close> wins by playing it.\<close>

definition winsNow :: "board \<Rightarrow> nat \<Rightarrow> bool" where
  "winsNow board move =
     (move \<in> set (getAvailableMoves board) \<and> checkWinner (board[move := ''O'']) = Some ''O'')"

text \<open>The cells of a board hold \<open>X\<close>, \<open>O\<close> or nothing.\<close>

definition wellFormed :: "board \<Rightarrow> bool" where
  "wellFormed board = list_all (\<lambda>cell. cell = [] \<or> cell = ''X'' \<or> cell = ''O'') board"

text \<open>
  What a top score stands for. With \<open>n\<close> plies of lookahead left, \<open>O\<close> wins whatever \<open>X\<close>
  replies when \<open>O\<close> holds a line already, or the game is still open and, with \<open>O\<close> to move,
  some empty cell leads to such a board, with \<open>X\<close> to move, every empty cell does.
\<close>

fun forcedWin :: "nat \<Rightarrow> bool \<Rightarrow> board \<Rightarrow> bool" where
  "forcedWin 0 oToMove b = (checkWinner b = Some ''O'')"
| "forcedWin (Suc n) oToMove b =
     (checkWinner b = Some ''O'' \<or>
      (checkWinner b = None \<and> \<not> isDraw b \<and>
       (if oToMove then (\<exists>c \<in> set (getAvailableMoves b). forcedWin n False (b[c := ''O'']))
        else (\<forall>c \<in> set (getAvailableMoves b). forcedWin n True (b[c := ''X''])))))"

text \<open>The same after \<open>O\<close> plays a cell, with the rest of the lookahead of the difficulty.\<close>

definition forcedAfter :: "board \<Rightarrow> difficulty \<Rightarrow> nat \<Rightarrow> bool" where
  "forcedAfter b diff m = forcedWin (difficultyDepths diff - 1) False (b[m := ''O''])"

text \<open>
  \<open>X\<close> on cells 0, 1 and 4, \<open>O\<close> on cells 7 and 8, \<open>O\<close> to move: cell 6 wins at once,
  and cell 2 blocks the top row.
\<close>

definition forkBoard :: board where
  "forkBoard = [''X'', ''X'', [], [], ''X'', [], [], ''O'', ''O'']"

section \<open>Game documents (models/Game.ts)\<close>

datatype vsMode = AI | Human

datatype gameStatus = in_progress | completed | abandoned | paused

text \<open>
  A stored game. Timestamps are milliseconds since the epoch; the two clocks are seconds
  and can hold fractions. A field the schema leaves optional is an option.
\<close>

record game =
  user :: objectId
  vs :: vsMode
  difficulty :: "difficulty option"
  agingEnabled :: bool
  maxAge :: "int option"
  status :: gameStatus
  outcome :: "outcome option"
  duration :: int
  opponentId :: "objectId option"
  winningLine :: "nat list option"
  timerEnabled :: bool
  playerXTimeRemaining :: rat
  playerOTimeRemaining :: rat
  timerLastStartedAt :: "int option"
  timeoutLoser :: "player option"
  createdAt :: int

section \<open>Recommendation service (src/services/recommendationService.ts)\<close>

datatype cacheStatus = cache_processing | cache_completed | cache_failed

record recommendation =
  recId :: string
  recTitle :: string
  recDescription :: string
  recPriority :: string
  recIcon :: string
  recCategory :: string
  recActionType :: string
  recActionLabel :: string
  recActionDifficulty :: "string option"

record recommendationCache =
  recommendations :: "recommendation list"
  cacheState :: cacheStatus
  errorMessage :: "string option"
  expiresAt :: int

text \<open>Decimal digits of a number, for the identifier \<open>rec-${Date.now()}-1\<close>.\<close>

fun showNat :: "nat \<Rightarrow> string" where
  "showNat n =
     (if n < 10 then [char_of (48 + n)]
      else showNat (n div 10) @ [char_of (48 + n mod 10)])"

definition showInt :: "int \<Rightarrow> string" where
  "showInt i = (if i < 0 then CHR ''-'' # showNat (nat (- i)) else showNat (nat i))"

definition getDefaultRecommendations :: "int \<Rightarrow> recommendation list" where
  "getDefaultRecommendations now =
     [\<lparr> recId = ''rec-'' @ showInt now @ ''-1'',
        recTitle = ''Start Your Journey!'',
        recDescription = ''Play your first game to unlock personalized AI recommendations.'',
        recPriority = ''high'',
        recIcon = ''trending-up'',
        recCategory = ''difficulty'',
        recActionType = ''play-game'',
        recActionLabel = ''Play Now'',
        recActionDifficulty = Some ''medium'' \<rparr>]"

text \<open>
  What the service cannot see from its own code: the cache row of the user as each poll
  finds it (other requests write it meanwhile), the clock at each poll (index 0 is the
  entry of \<open>generateRecommendations\<close>), the clock when a generation starts and when it
  ends, and the answer of the language model to the prepared games, which is a list of
  recommendations or an exception with its message.
\<close>

record recEnv =
  observe :: "nat \<Rightarrow> recommendationCache option"
  clockAt :: "nat \<Rightarrow> int"
  genStart :: int
  genEnd :: int
  analyzeGamesAndRecommend :: "game list \<Rightarrow> string + recommendation list"

text \<open>
  The loop of \<open>waitForProcessing\<close>, from a value of \<open>elapsed\<close>. Each turn sleeps one poll
  interval and reads the row. The result is what the function returns (\<open>None\<close> is \<open>null\<close>)
  and the number of polls made.
\<close>

function waitLoop :: "recEnv \<Rightarrow> int \<Rightarrow> recommendation list option \<times> nat" where
  "waitLoop env elapsed =
     (if elapsed < 30000
      then (let elapsed' = elapsed + 1000; k = nat (elapsed' div 1000)
            in case observe env k of
                 None \<Rightarrow> (None, k)
               | Some cache \<Rightarrow>
                   if cacheState cache = cache_completed \<and> expiresAt cache > clockAt env k
                   then (Some (recommendations cache), k)
                   else if cacheState cache = cache_failed then (None, k)
                   else waitLoop env elapsed')
      else (None, nat (elapsed div 1000)))"
  by pat_completeness auto
termination
  by (relation "measure (\<lambda>(env, elapsed). nat (30000 - elapsed))") auto

definition waitForProcessing :: "recEnv \<Rightarrow> recommendation list option \<times> nat" where
  "waitForProcessing env = waitLoop env 0"

text \<open>\<open>updateCache\<close>: an upsert of the recommendations, the status and a fresh expiry.\<close>

definition updateCache ::
    "(objectId \<rightharpoonup> recommendationCache) \<Rightarrow> objectId \<Rightarrow> recommendation list \<Rightarrow> cacheStatus \<Rightarrow> int \<Rightarrow>
     (objectId \<rightharpoonup> recommendationCache)" where
  "updateCache caches userId recs st now =
     caches(userId \<mapsto>
       (case caches userId of
          None \<Rightarrow> \<lparr> recommendations = recs, cacheState = st, errorMessage = None,
                    expiresAt = now + 24 * 60 * 60 * 1000 \<rparr>
        | Some c \<Rightarrow> c \<lparr> recommendations := recs, cacheState := st,
                        expiresAt := now + 24 * 60 * 60 * 1000 \<rparr>))"

text \<open>
  The part of \<open>generateRecommendations\<close> after the cache check: mark the row as
  processing, fetch the last 10 completed games of the user, generate, store. An exception
  of the model goes to the \<open>catch\<close> block, which marks the row failed and returns the
  default recommendations.
\<close>

definition startGeneration ::
    "recEnv \<Rightarrow> game list \<Rightarrow> (objectId \<rightharpoonup> recommendationCache) \<Rightarrow> objectId \<Rightarrow>
     recommendation list \<times> (objectId \<rightharpoonup> recommendationCache)" where
  "startGeneration env gameDocs caches userId =
     (let marked = caches(userId \<mapsto>
            (case caches userId of
               None \<Rightarrow> \<lparr> recommendations = [], cacheState = cache_processing,
                         errorMessage = None, expiresAt = genStart env + 24 * 60 * 60 * 1000 \<rparr>
             | Some c \<Rightarrow> c \<lparr> cacheState := cache_processing,
                             expiresAt := genStart env + 24 * 60 * 60 * 1000 \<rparr>));
          games = take 10 (sort_key (\<lambda>g. - createdAt g)
                    (filter (\<lambda>g. user g = userId \<and> status g = completed) gameDocs))
      in if length games = 0
         then (let defaultRecs = getDefaultRecommendations (genEnd env)
               in (defaultRecs, updateCache marked userId defaultRecs cache_completed (genEnd env)))
         else (case analyzeGamesAndRecommend env games of
                 Inr recs \<Rightarrow> (recs, updateCache marked userId recs cache_completed (genEnd env))
               | Inl message \<Rightarrow>
                   (getDefaultRecommendations (genEnd env),
                    (case marked userId of
                       None \<Rightarrow> marked
                     | Some c \<Rightarrow> marked(userId \<mapsto>
                         c \<lparr> cacheState := cache_failed, errorMessage := Some message \<rparr>)))))"

text \<open>
  \<open>generateRecommendations\<close>. The test \<open>if (result)\<close> on the answer of
  \<open>waitForProcessing\<close> holds for every array, the empty one too, and fails for \<open>null\<close>
  only. After a wait the stored row is the one the last poll saw.
\<close>

definition generateRecommendations ::
    "recEnv \<Rightarrow> game list \<Rightarrow> (objectId \<rightharpoonup> recommendationCache) \<Rightarrow> objectId \<Rightarrow>
     recommendation list \<times> (objectId \<rightharpoonup> recommendationCache)" where
  "generateRecommendations env gameDocs caches userId =
     (case caches userId of
        None \<Rightarrow> startGeneration env gameDocs caches userId
      | Some existingCache \<Rightarrow>
          if cacheState existingCache = cache_completed \<and> expiresAt existingCache > clockAt env 0
          then (recommendations existingCache, caches)
          else if cacheState existingCache = cache_processing
          then (case waitForProcessing env of
                  (Some result, k) \<Rightarrow> (result, caches(userId := observe env k))
                | (None, k) \<Rightarrow> startGeneration env gameDocs (caches(userId := observe env k)) userId)
          else startGeneration env gameDocs caches userId)"

text \<open>The row is found processing by each of the first \<open>n\<close> polls.\<close>

definition stillProcessing :: "recEnv \<Rightarrow> nat \<Rightarrow> bool" where
  "stillProcessing env n =
     (\<forall>k. 1 \<le> k \<and> k \<le> n \<longrightarrow> (\<exists>c. observe env k = Some c \<and> cacheState c = cache_processing))"

text \<open>A row that is processing, and a world in which it stays so and the model is never asked.\<close>

definition stuckRow :: recommendationCache where
  "stuckRow = \<lparr> recommendations = [], cacheState = cache_processing, errorMessage = None,
                expiresAt = 86400000 \<rparr>"

definition stuckEnv :: recEnv where
  "stuckEnv = \<lparr> observe = (\<lambda>k. Some stuckRow), clockAt = (\<lambda>k. 1000 * int k),
                genStart = 30000, genEnd = 30001,
                analyzeGamesAndRecommend = (\<lambda>games. Inr []) \<rparr>"

text \<open>A world in which the row is completed, with two hours left, at the third poll.\<close>

definition doneRow :: recommendationCache where
  "doneRow = \<lparr> recommendations = getDefaultRecommendations 5, cacheState = cache_completed,
               errorMessage = None, expiresAt = 7200000 \<rparr>"

definition doneEnv :: recEnv where
  "doneEnv = \<lparr> observe = (\<lambda>k. if k < 3 then Some stuckRow else Some doneRow),
               clockAt = (\<lambda>k. 1000 * int k), genStart = 30000, genEnd = 30001,
               analyzeGamesAndRecommend = (\<lambda>games. Inr []) \<rparr>"

section \<open>Socket service (socketService.ts)\<close>

subsection \<open>Stored moves, events and the state of the server\<close>

text \<open>A stored move: the fields the engine reads, and the rest of the document.\<close>

record moveDoc = emove +
  moveId :: nat
  gameId :: objectId
  isAiMove :: bool
  boardStateBeforeMove :: "string option list"
  boardStateAfterMove :: "string option list"
  expiresOnMove :: "int option"
  expiredAt :: "int option"
  expiredReason :: "string option"
  analysisStatus :: string
  attempts :: int

record gameEndPayload =
  endGameId :: objectId
  endResult :: "outcome option"
  endWinningLine :: "nat list option"
  endMoves :: int
  endDuration :: int
  endLeveledUp :: bool
  endNewSkill :: "string option"
  endSkillPoints :: int
  endPreviousSkill :: "string option"
  endNewAchievements :: "newAchievement list"

text \<open>
  The events the server emits, with their payloads: \<open>error\<close>, \<open>timer-update\<close>,
  \<open>game-timeout\<close> (winner, loser), \<open>game-end\<close>, \<open>cell-expired\<close>, \<open>aging-state\<close>,
  \<open>game-update\<close> (board, next player, result, duration) and \<open>ai-move\<close>.
\<close>

datatype event =
    ErrorEvent string
  | TimerUpdate objectId rat rat "player option"
  | GameTimeout objectId player player
  | GameEnd gameEndPayload
  | CellExpired objectId "(int \<times> player) list"
  | AgingState objectId "agingCell list"
  | GameUpdate objectId board player "outcome option" int
  | AiMove objectId int

text \<open>An event goes to the socket of the request or to a room.\<close>

datatype target = ToSocket | ToRoom string

text \<open>
  The state the handlers work on: the collections, the map of scheduled timeouts (delay in
  milliseconds and the player whose clock runs), and the events emitted so far, oldest
  first.
\<close>

record sys =
  gameStore :: "objectId \<rightharpoonup> game"
  moveStore :: "moveDoc list"
  userStore :: "objectId \<rightharpoonup> user"
  achievementStore :: "userAchievement list"
  gameTimers :: "objectId \<rightharpoonup> (rat \<times> player)"
  emitted :: "(target \<times> event) list"

definition emit :: "target \<Rightarrow> event \<Rightarrow> sys \<Rightarrow> sys" where
  "emit t e s = s \<lparr> emitted := emitted s @ [(t, e)] \<rparr>"

definition clearGameTimer :: "objectId \<Rightarrow> sys \<Rightarrow> sys" where
  "clearGameTimer gid s = s \<lparr> gameTimers := (gameTimers s)(gid := None) \<rparr>"

definition scheduleTimer :: "objectId \<Rightarrow> rat \<Rightarrow> player \<Rightarrow> sys \<Rightarrow> sys" where
  "scheduleTimer gid remainingMs activePlayer s =
     (clearGameTimer gid s) \<lparr> gameTimers := (gameTimers (clearGameTimer gid s))(gid \<mapsto> (remainingMs, activePlayer)) \<rparr>"

text \<open>\<open>Move.find({ gameId }).sort({ moveNumber: 1 })\<close>.\<close>

definition movesOfGame :: "sys \<Rightarrow> objectId \<Rightarrow> moveDoc list" where
  "movesOfGame s gid = sort_key moveNumber (filter (\<lambda>m. gameId m = gid) (moveStore s))"

text \<open>The elapsed seconds since the game was created, kept as the duration when larger.\<close>

definition touchDuration :: "int \<Rightarrow> game \<Rightarrow> game" where
  "touchDuration now g =
     (let elapsedSeconds = (now - createdAt g) div 1000
      in if elapsedSeconds > duration g then g \<lparr> duration := elapsedSeconds \<rparr> else g)"

definition otherPlayer :: "player \<Rightarrow> player" where
  "otherPlayer p = (if p = PlayerX then PlayerO else PlayerX)"

subsection \<open>Statistics and the roll-up at the end of a game\<close>

definition updateUserStats ::
    "(objectId \<rightharpoonup> user) \<Rightarrow> objectId \<Rightarrow> outcome \<Rightarrow> difficulty option \<Rightarrow>
     user option \<times> (objectId \<rightharpoonup> user)" where
  "updateUserStats us userId oc diff =
     (case us userId of
        None \<Rightarrow> (None, us)
      | Some u \<Rightarrow>
          let st0 = (stats u) \<lparr> gamesPlayed := gamesPlayed (stats u) + 1 \<rparr>;
              st1 =
                (case oc of
                   win \<Rightarrow>
                     (let a = st0 \<lparr> totalWins := totalWins st0 + 1,
                                    currentWinStreak := currentWinStreak st0 + 1 \<rparr>;
                          b = (if currentWinStreak a > longestWinStreak a
                               then a \<lparr> longestWinStreak := currentWinStreak a \<rparr> else a);
                          c = (if diff = Some hard
                               then b \<lparr> expertAiWins := expertAiWins b + 1 \<rparr> else b)
                      in c \<lparr> currentLossStreak := 0 \<rparr>)
                 | lose \<Rightarrow>
                     st0 \<lparr> totalLoses := totalLoses st0 + 1,
                           currentLossStreak := currentLossStreak st0 + 1,
                           currentWinStreak := 0 \<rparr>
                 | draw \<Rightarrow>
                     st0 \<lparr> totalDraws := totalDraws st0 + 1,
                           currentWinStreak := 0, currentLossStreak := 0 \<rparr>);
              u' = u \<lparr> stats := st1 \<rparr>
          in (Some u', us(userId \<mapsto> u')))"

text \<open>
  The block each completion path runs before it emits \<open>game-end\<close>: the statistics of the
  owner, the achievements when the owner exists, the progression; then the payload, with
  the winning line and the move count the path gives it. The payload goes to the room of
  the game and to the room of the owner.
\<close>

definition finishGame :: "objectId \<Rightarrow> game \<Rightarrow> nat list option \<Rightarrow> int \<Rightarrow> int \<Rightarrow> sys \<Rightarrow> sys" where
  "finishGame gid g line moveCount now s =
     (let (updatedUser, users1) =
            (case outcome g of
               None \<Rightarrow> (None, userStore s)
             | Some oc \<Rightarrow> updateUserStats (userStore s) (user g) oc (difficulty g));
          (newAchievements, records1) =
            (case updatedUser of
               None \<Rightarrow> ([], achievementStore s)
             | Some u \<Rightarrow> checkAndUnlockAchievements users1 (achievementStore s) (user g) now);
          (progress, users2) =
            (case outcome g of
               None \<Rightarrow> (None, users1)
             | Some oc \<Rightarrow> (case applyGameResult users1 (user g) oc now of
                            (r, us) \<Rightarrow> (Some r, us)));
          payload =
            \<lparr> endGameId = gid, endResult = outcome g, endWinningLine = line,
              endMoves = moveCount, endDuration = duration g,
              endLeveledUp = (case progress of None \<Rightarrow> False | Some r \<Rightarrow> leveledUp r),
              endNewSkill =
                (case progress of None \<Rightarrow> None | Some r \<Rightarrow> map_option label (resultCurrent r)),
              endSkillPoints =
                (case progress of
                   None \<Rightarrow> 0
                 | Some r \<Rightarrow> (case resultSkillPoints r of None \<Rightarrow> 0 | Some p \<Rightarrow> p)),
              endPreviousSkill = (case progress of None \<Rightarrow> None | Some r \<Rightarrow> previousSkill r),
              endNewAchievements = newAchievements \<rparr>
      in emit (ToRoom (''user_'' @ user g)) (GameEnd payload)
           (emit (ToRoom gid) (GameEnd payload)
              (s \<lparr> userStore := users2, achievementStore := records1 \<rparr>)))"

subsection \<open>Timeout forfeit\<close>

text \<open>The changes the timeout handler makes to the game it forfeits.\<close>

definition forfeit :: "player \<Rightarrow> int \<Rightarrow> game \<Rightarrow> game" where
  "forfeit timedOutPlayer now game0 =
     (let g1 = game0 \<lparr> outcome := Some (if timedOutPlayer = PlayerX then lose else win),
                       status := completed,
                       timeoutLoser := Some timedOutPlayer \<rparr>;
          g2 = (if timedOutPlayer = PlayerX then g1 \<lparr> playerXTimeRemaining := 0 \<rparr>
                else g1 \<lparr> playerOTimeRemaining := 0 \<rparr>)
      in touchDuration now (g2 \<lparr> timerLastStartedAt := None \<rparr>))"

text \<open>
  \<open>handleTimeout\<close>: the scheduled timeout of the game is cleared, the game is loaded
  again, and nothing more happens unless it is in progress.
\<close>

definition handleTimeout :: "objectId \<Rightarrow> player \<Rightarrow> int \<Rightarrow> sys \<Rightarrow> sys" where
  "handleTimeout gid timedOutPlayer now s0 =
     (let s = clearGameTimer gid s0
      in case gameStore s gid of
           None \<Rightarrow> s
         | Some game0 \<Rightarrow>
             if status game0 \<noteq> in_progress then s
             else
               let g = forfeit timedOutPlayer now game0;
                   s1 = s \<lparr> gameStore := (gameStore s)(gid \<mapsto> g) \<rparr>;
                   s2 = emit (ToRoom gid)
                          (TimerUpdate gid (playerXTimeRemaining g) (playerOTimeRemaining g)
                             (Some timedOutPlayer)) s1;
                   s3 = emit (ToRoom gid)
                          (GameTimeout gid (otherPlayer timedOutPlayer) timedOutPlayer) s2
               in finishGame gid g None (int (length (movesOfGame s3 gid))) now s3)"

subsection \<open>Loaded documents\<close>

text \<open>
  A handler works on the game document it loaded, and \<open>save\<close> sends the paths that were
  assigned a new value since the document was loaded or last saved; the other fields of
  the stored game stay as they are. A handler that loads and saves within one run writes
  back what it holds. The deferred AI turn keeps the document of the handler that scheduled
  it and saves it seconds later, so its paths are tracked; these are the paths it assigns.
\<close>

datatype gamePath =
  OutcomePath | StatusPath | WinningLinePath | TimerStartPath | DurationPath | OTimePath

record gameDoc =
  held :: game
  modifiedPaths :: "gamePath set"

text \<open>An assignment marks its path when the value differs from the one held.\<close>

definition assign :: "gamePath \<Rightarrow> bool \<Rightarrow> game \<Rightarrow> gameDoc \<Rightarrow> gameDoc" where
  "assign path differs g d =
     \<lparr> held = g,
       modifiedPaths = (if differs then insert path (modifiedPaths d) else modifiedPaths d) \<rparr>"

definition setOutcome :: "outcome option \<Rightarrow> gameDoc \<Rightarrow> gameDoc" where
  "setOutcome v d = assign OutcomePath (outcome (held d) \<noteq> v) ((held d) \<lparr> outcome := v \<rparr>) d"

definition setStatus :: "gameStatus \<Rightarrow> gameDoc \<Rightarrow> gameDoc" where
  "setStatus v d = assign StatusPath (status (held d) \<noteq> v) ((held d) \<lparr> status := v \<rparr>) d"

definition setWinningLine :: "nat list option \<Rightarrow> gameDoc \<Rightarrow> gameDoc" where
  "setWinningLine v d =
     assign WinningLinePath (winningLine (held d) \<noteq> v) ((held d) \<lparr> winningLine := v \<rparr>) d"

definition setTimerLastStartedAt :: "int option \<Rightarrow> gameDoc \<Rightarrow> gameDoc" where
  "setTimerLastStartedAt v d =
     assign TimerStartPath (timerLastStartedAt (held d) \<noteq> v)
       ((held d) \<lparr> timerLastStartedAt := v \<rparr>) d"

definition setDuration :: "int \<Rightarrow> gameDoc \<Rightarrow> gameDoc" where
  "setDuration v d = assign DurationPath (duration (held d) \<noteq> v) ((held d) \<lparr> duration := v \<rparr>) d"

definition setPlayerOTimeRemaining :: "rat \<Rightarrow> gameDoc \<Rightarrow> gameDoc" where
  "setPlayerOTimeRemaining v d =
     assign OTimePath (playerOTimeRemaining (held d) \<noteq> v)
       ((held d) \<lparr> playerOTimeRemaining := v \<rparr>) d"

text \<open>The stored game after the modified paths of a document are written to it.\<close>

definition writePaths :: "gamePath set \<Rightarrow> game \<Rightarrow> game \<Rightarrow> game" where
  "writePaths paths doc stored =
     stored \<lparr> outcome := (if OutcomePath \<in> paths then outcome doc else outcome stored),
              status := (if StatusPath \<in> paths then status doc else status stored),
              winningLine :=
                (if WinningLinePath \<in> paths then winningLine doc else winningLine stored),
              timerLastStartedAt :=
                (if TimerStartPath \<in> paths then timerLastStartedAt doc
                 else timerLastStartedAt stored),
              duration := (if DurationPath \<in> paths then duration doc else duration stored),
              playerOTimeRemaining :=
                (if OTimePath \<in> paths then playerOTimeRemaining doc
                 else playerOTimeRemaining stored) \<rparr>"

text \<open>\<open>game.save()\<close> on a tracked document. The two pipelines delete no game.\<close>

definition saveDoc :: "objectId \<Rightarrow> gameDoc \<Rightarrow> sys \<Rightarrow> sys" where
  "saveDoc gid d s =
     (case gameStore s gid of
        None \<Rightarrow> s
      | Some stored \<Rightarrow>
          s \<lparr> gameStore := (gameStore s)(gid \<mapsto> writePaths (modifiedPaths d) (held d) stored) \<rparr>)"

text \<open>
  What the deferred AI turn keeps from the handler that scheduled it: the game document,
  saved a moment before, the board after the player's move and the number of that move.
\<close>

record aiClosure =
  aiDoc :: gameDoc
  aiGameId :: objectId
  aiPlayerBoard :: board
  aiMoveNumber :: int

subsection \<open>The move pipeline\<close>

record moveRequest =
  reqGameId :: objectId
  reqPosition :: int
  reqUserId :: objectId

text \<open>The objects the handlers pass to the engine.\<close>

definition toEngineMove :: "moveDoc \<Rightarrow> emove" where
  "toEngineMove m =
     \<lparr> moveNumber = moveNumber m, position = position m, player = player m,
       expiredOnMove = expiredOnMove m \<rparr>"

text \<open>
  The move at which a stored move is due to expire: its own \<open>expiresOnMove\<close>, or its
  number plus the maximum age when aging is on for the game.
\<close>

definition scheduledExpiry :: "game \<Rightarrow> int \<Rightarrow> moveDoc \<Rightarrow> int option" where
  "scheduledExpiry g maxAge' m =
     (case expiresOnMove m of
        Some e \<Rightarrow> Some e
      | None \<Rightarrow> if agingEnabled g then Some (moveNumber m + maxAge') else None)"

text \<open>The test of the player's move: due at or before the new move, and not yet expired.\<close>

definition dueBy :: "game \<Rightarrow> int \<Rightarrow> int \<Rightarrow> moveDoc \<Rightarrow> bool" where
  "dueBy g maxAge' n m =
     (case scheduledExpiry g maxAge' m of
        None \<Rightarrow> False
      | Some e \<Rightarrow> e \<le> n \<and> expiredOnMove m = None)"

text \<open>The test of the AI's move: due exactly at the new move, and not yet expired.\<close>

definition dueAt :: "game \<Rightarrow> int \<Rightarrow> int \<Rightarrow> moveDoc \<Rightarrow> bool" where
  "dueAt g maxAge' n m =
     (case scheduledExpiry g maxAge' m of
        None \<Rightarrow> False
      | Some e \<Rightarrow> e = n \<and> expiredOnMove m = None)"

text \<open>\<open>Move.updateMany\<close> on the identifiers to expire; nothing is sent when there is none.\<close>

definition markExpired :: "nat list \<Rightarrow> int \<Rightarrow> int \<Rightarrow> sys \<Rightarrow> sys" where
  "markExpired ids n now s =
     (if ids = [] then s
      else s \<lparr> moveStore :=
             map (\<lambda>m. if moveId m \<in> set ids
                       then m \<lparr> expiredOnMove := Some n, expiredAt := Some now,
                                expiredReason := Some ''aging'' \<rparr>
                       else m) (moveStore s) \<rparr>)"

text \<open>\<open>Move.create\<close>: the new document gets an identifier no stored move has.\<close>

definition freshMoveId :: "sys \<Rightarrow> nat" where
  "freshMoveId s = Suc (foldr (\<lambda>m a. max (moveId m) a) (moveStore s) 0)"

definition nullable :: "board \<Rightarrow> string option list" where
  "nullable b = map (\<lambda>cell. if cell = [] then None else Some cell) b"

definition createMove ::
    "objectId \<Rightarrow> int \<Rightarrow> int \<Rightarrow> bool \<Rightarrow> player \<Rightarrow> board \<Rightarrow> board \<Rightarrow> int option \<Rightarrow> sys \<Rightarrow> sys" where
  "createMove gid n pos ai p before after expires s =
     s \<lparr> moveStore := moveStore s @
           [\<lparr> moveNumber = n, position = pos, player = p, expiredOnMove = None,
              moveId = freshMoveId s, gameId = gid, isAiMove = ai,
              boardStateBeforeMove = nullable before, boardStateAfterMove = nullable after,
              expiresOnMove = expires, expiredAt = None, expiredReason = None,
              analysisStatus = ''pending'', attempts = 0 \<rparr>] \<rparr>"

text \<open>
  \<open>deductTimerOnMove\<close>: the game with the mover's clock charged and the next clock
  started, and the two remaining times (\<open>None\<close> is \<open>null\<close>: the timer is off). The
  elapsed seconds and the remaining time are doubles: each operation is rounded.
\<close>

definition deductTimerOnMove :: "game \<Rightarrow> player \<Rightarrow> int \<Rightarrow> game \<times> (rat \<times> rat) option" where
  "deductTimerOnMove g currentPlayer now =
     (if \<not> timerEnabled g then (g, None)
      else
        let elapsed = (case timerLastStartedAt g of
                         None \<Rightarrow> 0
                       | Some t \<Rightarrow> roundRat (of_int (now - t) / 1000));
            g1 = (if currentPlayer = PlayerX
                  then g \<lparr> playerXTimeRemaining :=
                           max 0 (roundRat (playerXTimeRemaining g - elapsed)) \<rparr>
                  else g \<lparr> playerOTimeRemaining :=
                           max 0 (roundRat (playerOTimeRemaining g - elapsed)) \<rparr>);
            nextPlayer = otherPlayer currentPlayer;
            g2 = (if vs g1 = AI \<and> nextPlayer = PlayerO
                  then g1 \<lparr> timerLastStartedAt := None \<rparr>
                  else g1 \<lparr> timerLastStartedAt := Some now \<rparr>)
        in (g2, Some (playerXTimeRemaining g2, playerOTimeRemaining g2)))"

text \<open>
  The evaluation of the board after a move: a winner completes the game with the outcome
  the handler derives from the symbol and records the winning line; a draw completes it;
  otherwise the game is left as it is. A completed game has its clock stopped.
\<close>

definition decideGame :: "board \<Rightarrow> (string \<Rightarrow> outcome) \<Rightarrow> game \<Rightarrow> game" where
  "decideGame b toOutcome g =
     (case checkWinner b of
        Some winner \<Rightarrow>
          (let g1 = g \<lparr> outcome := Some (toOutcome winner), status := completed,
                        timerLastStartedAt := None \<rparr>
           in case getWinningLine b of
                Some line \<Rightarrow> g1 \<lparr> winningLine := Some line \<rparr>
              | None \<Rightarrow> g1)
      | None \<Rightarrow>
          if isDraw b
          then g \<lparr> outcome := Some draw, status := completed, timerLastStartedAt := None \<rparr>
          else g)"

definition gameOver :: "board \<Rightarrow> bool" where
  "gameOver b = (checkWinner b \<noteq> None \<or> isDraw b)"

text \<open>
  The handler from the creation of the move on, for a request that passed every check:
  \<open>g\<close> is the loaded game with its duration touched, \<open>ms\<close> the moves of the game,
  \<open>board\<close> the active board and \<open>currentPlayer\<close> the mover.
\<close>

definition commitMove ::
    "moveRequest \<Rightarrow> int \<Rightarrow> sys \<Rightarrow> game \<Rightarrow> moveDoc list \<Rightarrow> board \<Rightarrow> player \<Rightarrow> sys \<times> aiClosure option" where
  "commitMove req now s g ms board currentPlayer =
     (let gid = reqGameId req;
          n = int (length ms) + 1;
          maxAge' = (case maxAge g of None \<Rightarrow> 5 | Some a \<Rightarrow> a);
          toExpire = filter (dueBy g maxAge' n) ms;
          toExpireIds = map moveId toExpire;
          s1 = markExpired toExpireIds n now s;
          movesForBoard =
            map (\<lambda>m. \<lparr> moveNumber = moveNumber m, position = position m, player = player m,
                        expiredOnMove =
                          (if expiredOnMove m \<noteq> None then expiredOnMove m
                           else if moveId m \<in> set toExpireIds then Some n else None) \<rparr>) ms;
          played = movesForBoard @
            [\<lparr> moveNumber = n, position = reqPosition req, player = currentPlayer,
               expiredOnMove = None \<rparr>];
          playerBoard = getActiveBoardFromMoves played n;
          s2 = createMove gid n (reqPosition req) False currentPlayer board playerBoard
                 (if agingEnabled g then Some (n + maxAge') else None) s1;
          (g1, timerState) = deductTimerOnMove g currentPlayer now;
          g2 = decideGame playerBoard (\<lambda>w. if w = ''X'' then win else lose) g1;
          s3 = (if gameOver playerBoard then clearGameTimer gid s2 else s2)
                 \<lparr> gameStore := (gameStore s2)(gid \<mapsto> g2) \<rparr>;
          s4 = (if toExpire \<noteq> []
                then emit (ToRoom gid)
                       (CellExpired gid (map (\<lambda>m. (position m, player m)) toExpire)) s3
                else s3);
          s5 = emit (ToRoom gid) (AgingState gid (getAgingState played n maxAge')) s4;
          s6 = emit (ToRoom gid)
                 (GameUpdate gid playerBoard (otherPlayer currentPlayer) (outcome g2) (duration g2))
                 s5;
          s7 = (case timerState of
                  None \<Rightarrow> s6
                | Some (xRemaining, oRemaining) \<Rightarrow>
                    emit (ToRoom gid)
                      (TimerUpdate gid xRemaining oRemaining
                         (if status g2 = completed then None
                          else Some (otherPlayer currentPlayer))) s6)
      in if status g2 = completed
         then (finishGame gid g2 (winningLine g2) n now s7, None)
         else
           let nextPlayer = otherPlayer currentPlayer;
               s8 = (if timerEnabled g2 \<and> status g2 = in_progress \<and>
                        \<not> (vs g2 = AI \<and> nextPlayer = PlayerO)
                     then scheduleTimer gid
                            (roundRat ((if nextPlayer = PlayerX then playerXTimeRemaining g2
                                        else playerOTimeRemaining g2) * 1000)) nextPlayer s7
                     else s7)
           in (s8, if vs g2 = AI
                   then Some \<lparr> aiDoc = \<lparr> held = g2, modifiedPaths = {} \<rparr>, aiGameId = gid,
                               aiPlayerBoard = playerBoard, aiMoveNumber = n \<rparr>
                   else None))"

text \<open>
  The checks of the \<open>make-move\<close> handler, in their order. A failed check is the message
  of the \<open>error\<close> event sent to the socket; when all pass, the result is the loaded game
  with its duration touched, the moves of the game, the active board and the mover.
\<close>

definition validateMove ::
    "moveRequest \<Rightarrow> int \<Rightarrow> sys \<Rightarrow> string + (game \<times> moveDoc list \<times> board \<times> player)" where
  "validateMove req now s =
     (case gameStore s (reqGameId req) of
        None \<Rightarrow> Inl ''Game not found''
      | Some game0 \<Rightarrow>
          let g = touchDuration now game0;
              isOwner = (user g = reqUserId req);
              isOpponent = (case opponentId g of None \<Rightarrow> False | Some opp \<Rightarrow> opp = reqUserId req);
              isLocalHuman = (vs g = Human \<and> opponentId g = None \<and> isOwner)
          in if \<not> isOwner \<and> \<not> isOpponent \<and> \<not> isLocalHuman
             then Inl ''Not authorized for this game''
             else if status g = completed \<or> status g = abandoned
             then Inl ''Game is not active''
             else if vs g = AI \<and> difficulty g = None
             then Inl ''AI difficulty not set''
             else
               let ms = movesOfGame s (reqGameId req);
                   currentMoveNumber = int (length ms);
                   board = (if currentMoveNumber > 0
                            then getActiveBoardFromMoves (map toEngineMove ms) currentMoveNumber
                            else replicate 9 []);
                   currentPlayer = (if length ms mod 2 = 0 then PlayerX else PlayerO);
                   playerSymbol = (if isLocalHuman then currentPlayer
                                   else if isOwner then PlayerX else PlayerO)
               in if currentPlayer \<noteq> playerSymbol
                  then Inl ''It is not your turn''
                  else (case applyMove board (reqPosition req) playerSymbol of
                          None \<Rightarrow> Inl ''Invalid move''
                        | Some moved \<Rightarrow> Inr (g, ms, board, playerSymbol)))"

text \<open>
  The \<open>make-move\<close> handler up to the point where it schedules the AI turn: the state
  after it, and the AI turn it has scheduled (if any). \<open>now\<close> is the clock.
\<close>

definition makeMove :: "moveRequest \<Rightarrow> int \<Rightarrow> sys \<Rightarrow> sys \<times> aiClosure option" where
  "makeMove req now s =
     (case validateMove req now s of
        Inl message \<Rightarrow> (emit ToSocket (ErrorEvent message) s, None)
      | Inr (g, ms, board, playerSymbol) \<Rightarrow> commitMove req now s g ms board playerSymbol)"

text \<open>
  The deferred AI turn, first part: it runs once the handler that called \<open>setImmediate\<close>
  has returned. The thinking delay, in whole seconds, comes from the value \<open>r\<close> of
  \<open>Math.random()\<close>, and is charged to the clock of \<open>O\<close> when the timer is on. When that
  uses up the clock, the document is saved and \<open>O\<close> forfeits; otherwise the turn waits
  out the delay.
\<close>

definition aiDelaySeconds :: "game \<Rightarrow> rat \<Rightarrow> int" where
  "aiDelaySeconds g r =
     (let aiMaxDelaySeconds =
            (if difficulty g = Some hard then 5 else if difficulty g = Some medium then 10 else 30)
      in \<lfloor>roundRat (r * of_int (aiMaxDelaySeconds + 1))\<rfloor>)"

definition chargeAiDelay :: "gameDoc \<Rightarrow> int \<Rightarrow> gameDoc" where
  "chargeAiDelay d delay =
     (if timerEnabled (held d)
      then setPlayerOTimeRemaining
             (max 0 (roundRat (playerOTimeRemaining (held d) - of_int delay))) d
      else d)"

definition aiTurnStart :: "aiClosure \<Rightarrow> rat \<Rightarrow> int \<Rightarrow> sys \<Rightarrow> sys \<times> aiClosure option" where
  "aiTurnStart cl r now s =
     (let gid = aiGameId cl;
          d1 = chargeAiDelay (aiDoc cl) (aiDelaySeconds (held (aiDoc cl)) r)
      in if timerEnabled (held d1) \<and> playerOTimeRemaining (held d1) \<le> 0
         then (handleTimeout gid PlayerO now (saveDoc gid d1 s), None)
         else (s, Some (cl \<lparr> aiDoc := d1 \<rparr>)))"

text \<open>
  The evaluation of the board after the AI's move, on the document of the turn: like
  \<open>decideGame\<close>, by assignments to the document.
\<close>

definition decideDoc :: "board \<Rightarrow> (string \<Rightarrow> outcome) \<Rightarrow> gameDoc \<Rightarrow> gameDoc" where
  "decideDoc b toOutcome d =
     (case checkWinner b of
        Some winner \<Rightarrow>
          (let d1 = setTimerLastStartedAt None
                      (setStatus completed (setOutcome (Some (toOutcome winner)) d))
           in case getWinningLine b of
                Some line \<Rightarrow> setWinningLine (Some line) d1
              | None \<Rightarrow> d1)
      | None \<Rightarrow>
          if isDraw b
          then setTimerLastStartedAt None (setStatus completed (setOutcome (Some draw) d))
          else d)"

text \<open>
  All the assignments of the AI turn after its move: the outcome of the board, the clock
  of \<open>X\<close> started when the game goes on with the timer, and the duration.
\<close>

definition aiAssignments :: "board \<Rightarrow> int \<Rightarrow> gameDoc \<Rightarrow> gameDoc" where
  "aiAssignments aiBoardFinal now d =
     (let d1 = decideDoc aiBoardFinal (\<lambda>w. if w = ''O'' then lose else win) d;
          d2 = (if \<not> gameOver aiBoardFinal \<and> timerEnabled (held d1)
                then setTimerLastStartedAt (Some now) d1 else d1);
          aiElapsedSeconds = (now - createdAt (held d2)) div 1000
      in if aiElapsedSeconds > duration (held d2) then setDuration aiElapsedSeconds d2 else d2)"

text \<open>
  The AI turn after its thinking delay, for a move the engine accepted; \<open>now\<close> is the
  clock. First the moves: the marks that expire at the move of the AI are marked, the
  board is rebuilt from the stored moves, and the move is created. The result is the
  state, the moves that expired, the moves the board is built from, and the board.
\<close>

definition aiPlaceMove ::
    "aiClosure \<Rightarrow> int \<Rightarrow> int \<Rightarrow> sys \<Rightarrow> sys \<times> moveDoc list \<times> emove list \<times> board" where
  "aiPlaceMove cl aiMove now s =
     (let gid = aiGameId cl; g1 = held (aiDoc cl);
          n = aiMoveNumber cl + 1;
          maxAge' = (case maxAge g1 of None \<Rightarrow> 5 | Some a \<Rightarrow> a);
          toExpire = filter (dueAt g1 maxAge' n) (movesOfGame s gid);
          s1 = markExpired (map moveId toExpire) n now s;
          played = map toEngineMove (movesOfGame s1 gid) @
            [\<lparr> moveNumber = n, position = aiMove, player = PlayerO, expiredOnMove = None \<rparr>];
          aiBoardFinal = getActiveBoardFromMoves played n;
          s2 = createMove gid n aiMove True PlayerO (aiPlayerBoard cl) aiBoardFinal
                 (if agingEnabled g1 then Some (n + maxAge') else None) s1
      in (s2, toExpire, played, aiBoardFinal))"

text \<open>
  Last the events, the timeout of \<open>X\<close> and the roll-up of a completed game. What is
  emitted and scheduled follows the document \<open>g4\<close> the turn holds, whatever the stored
  game has become in the meantime.
\<close>

definition aiAnnounce ::
    "aiClosure \<Rightarrow> int \<Rightarrow> int \<Rightarrow> moveDoc list \<Rightarrow> emove list \<Rightarrow> board \<Rightarrow> game \<Rightarrow> sys \<Rightarrow> sys" where
  "aiAnnounce cl aiMove now toExpire played aiBoardFinal g4 s3 =
     (let gid = aiGameId cl; n = aiMoveNumber cl + 1;
          maxAge' = (case maxAge g4 of None \<Rightarrow> 5 | Some a \<Rightarrow> a);
          s4 = emit (ToRoom gid) (AiMove gid aiMove) s3;
          s5 = (if toExpire \<noteq> []
                then emit (ToRoom gid)
                       (CellExpired gid (map (\<lambda>m. (position m, player m)) toExpire)) s4
                else s4);
          s6 = emit (ToRoom gid) (AgingState gid (getAgingState played n maxAge')) s5;
          s7 = emit (ToRoom gid)
                 (GameUpdate gid aiBoardFinal PlayerX (outcome g4) (duration g4)) s6;
          s8 = (if timerEnabled g4
                then (let e = emit (ToRoom gid)
                                (TimerUpdate gid (playerXTimeRemaining g4)
                                   (playerOTimeRemaining g4)
                                   (if status g4 = completed then None else Some PlayerX)) s7
                      in if status g4 = in_progress
                         then scheduleTimer gid (roundRat (playerXTimeRemaining g4 * 1000))
                                PlayerX e
                         else e)
                else s7)
      in if status g4 = completed
         then finishGame gid g4 (winningLine g4) n now s8
         else s8)"

text \<open>
  Between the two, the assignments to the document and its save; the scheduled timeout is
  cleared when the board ends the game.
\<close>

definition aiReply :: "aiClosure \<Rightarrow> int \<Rightarrow> int \<Rightarrow> sys \<Rightarrow> sys" where
  "aiReply cl aiMove now s =
     (case aiPlaceMove cl aiMove now s of
        (s2, toExpire, played, aiBoardFinal) \<Rightarrow>
          let gid = aiGameId cl;
              d4 = aiAssignments aiBoardFinal now (aiDoc cl);
              s3 = saveDoc gid d4 (if gameOver aiBoardFinal then clearGameTimer gid s2 else s2)
          in aiAnnounce cl aiMove now toExpire played aiBoardFinal (held d4) s3)"

text \<open>
  The deferred AI turn, second part: after the thinking delay it picks its move on the
  board the handler left it and replies.
\<close>

definition aiTurnResume :: "aiClosure \<Rightarrow> int \<Rightarrow> sys \<Rightarrow> sys" where
  "aiTurnResume cl now s =
     (let aiMove = getBestMove (aiPlayerBoard cl)
                     (case difficulty (held (aiDoc cl)) of None \<Rightarrow> easy | Some d \<Rightarrow> d)
      in case applyMove (aiPlayerBoard cl) aiMove PlayerO of
           None \<Rightarrow> emit ToSocket (ErrorEvent ''AI move failed'') s
         | Some moved \<Rightarrow> aiReply cl aiMove now s)"

subsection \<open>The server and its steps\<close>

text \<open>
  The server between two steps: the state of the collections, timers and events, the AI
  turns that \<open>setImmediate\<close> has queued, and the AI turns that wait out their thinking
  delay. A step is the run of a handler up to the point where it returns or waits: the
  \<open>make-move\<close> handler up to the \<open>setImmediate\<close> of the AI turn, the first part of the
  oldest queued AI turn, the second part of any waiting AI turn, and the timeout handler.
  Steps follow each other in any order; within a step the calls to the database are not
  interleaved with other steps. A turn whose delay is zero does not wait; it is a waiting
  turn that resumes at once.
\<close>

record server =
  serverState :: sys
  queuedTurns :: "aiClosure list"
  waitingTurns :: "aiClosure list"

definition playerStep :: "moveRequest \<Rightarrow> int \<Rightarrow> server \<Rightarrow> server" where
  "playerStep req now sv =
     (case makeMove req now (serverState sv) of
        (s', None) \<Rightarrow> sv \<lparr> serverState := s' \<rparr>
      | (s', Some cl) \<Rightarrow> sv \<lparr> serverState := s', queuedTurns := queuedTurns sv @ [cl] \<rparr>)"

definition aiStartStep :: "rat \<Rightarrow> int \<Rightarrow> server \<Rightarrow> server" where
  "aiStartStep r now sv =
     (case queuedTurns sv of
        [] \<Rightarrow> sv
      | cl # rest \<Rightarrow>
          (case aiTurnStart cl r now (serverState sv) of
             (s', None) \<Rightarrow> sv \<lparr> serverState := s', queuedTurns := rest \<rparr>
           | (s', Some cl') \<Rightarrow>
               sv \<lparr> serverState := s', queuedTurns := rest,
                    waitingTurns := waitingTurns sv @ [cl'] \<rparr>))"

definition aiReplyStep :: "nat \<Rightarrow> int \<Rightarrow> server \<Rightarrow> server" where
  "aiReplyStep i now sv =
     (if i < length (waitingTurns sv)
      then sv \<lparr> serverState := aiTurnResume (waitingTurns sv ! i) now (serverState sv),
                waitingTurns := take i (waitingTurns sv) @ drop (Suc i) (waitingTurns sv) \<rparr>
      else sv)"

definition timeoutStep :: "objectId \<Rightarrow> player \<Rightarrow> int \<Rightarrow> server \<Rightarrow> server" where
  "timeoutStep gid p now sv = sv \<lparr> serverState := handleTimeout gid p now (serverState sv) \<rparr>"

subsection \<open>Reachable states\<close>

text \<open>A game as it is created: in progress, with no outcome and no winning line.\<close>

definition freshGame :: "game \<Rightarrow> bool" where
  "freshGame g = (status g = in_progress \<and> outcome g = None \<and> winningLine g = None)"

text \<open>
  The states the two pipelines reach: from a server whose games are all fresh and that has
  no AI turn pending, by creating a fresh game, by the \<open>make-move\<close> handler on any
  request, by the two parts of the AI turns it schedules (the random number is a double
  from 0 up to 1, 1 excluded), and by the timeout handler for any game and player, at any
  moment.
\<close>

inductive reachable :: "server \<Rightarrow> bool" where
  initial: "(\<forall>gid g. gameStore (serverState sv) gid = Some g \<longrightarrow> freshGame g) \<Longrightarrow>
            queuedTurns sv = [] \<Longrightarrow> waitingTurns sv = [] \<Longrightarrow> reachable sv"
| created: "reachable sv \<Longrightarrow> gameStore (serverState sv) gid = None \<Longrightarrow> freshGame g \<Longrightarrow>
            reachable (sv \<lparr> serverState :=
              (serverState sv) \<lparr> gameStore := (gameStore (serverState sv))(gid \<mapsto> g) \<rparr> \<rparr>)"
| moved: "reachable sv \<Longrightarrow> reachable (playerStep req now sv)"
| aiStarted: "reachable sv \<Longrightarrow> 0 \<le> r \<Longrightarrow> r < 1 \<Longrightarrow> roundRat r = r \<Longrightarrow>
              reachable (aiStartStep r now sv)"
| aiReplied: "reachable sv \<Longrightarrow> reachable (aiReplyStep i now sv)"
| timedOut: "reachable sv \<Longrightarrow> reachable (timeoutStep gid p now sv)"

text \<open>The invariant of a game document.\<close>

definition gameInvariant :: "game \<Rightarrow> bool" where
  "gameInvariant g =
     ((outcome g \<noteq> None) = (status g = completed) \<and>
      (case winningLine g of None \<Rightarrow> True | Some line \<Rightarrow> line \<in> set winningLines))"

text \<open>Every stored game satisfies the invariant.\<close>

definition storeInvariant :: "sys \<Rightarrow> bool" where
  "storeInvariant s = (\<forall>gid g. gameStore s gid = Some g \<longrightarrow> gameInvariant g)"

text \<open>
  What holds of the document of a pending AI turn: the game it holds is not completed and
  has no outcome, and at most the clock of \<open>O\<close> is modified.
\<close>

definition closureInvariant :: "aiClosure \<Rightarrow> bool" where
  "closureInvariant cl =
     (modifiedPaths (aiDoc cl) \<subseteq> {OTimePath} \<and> status (held (aiDoc cl)) \<noteq> completed \<and>
      outcome (held (aiDoc cl)) = None)"

definition serverInvariant :: "server \<Rightarrow> bool" where
  "serverInvariant sv =
     (storeInvariant (serverState sv) \<and>
      (\<forall>cl \<in> set (queuedTurns sv) \<union> set (waitingTurns sv). closureInvariant cl))"

text \<open>
  A sample run: the owner \<open>u1\<close> plays both sides of a local game without timer;
  \<open>X\<close> takes cells 0, 1 and 2, \<open>O\<close> cells 3 and 4.
\<close>

definition localGame :: game where
  "localGame =
     \<lparr> user = ''u1'', vs = Human, difficulty = None, agingEnabled = True, maxAge = Some 5,
       status = in_progress, outcome = None, duration = 0, opponentId = None,
       winningLine = None, timerEnabled = False, playerXTimeRemaining = 0,
       playerOTimeRemaining = 0, timerLastStartedAt = None, timeoutLoser = None,
       createdAt = 0 \<rparr>"

definition sampleStart :: sys where
  "sampleStart =
     \<lparr> gameStore = [''g1'' \<mapsto> localGame], moveStore = [], userStore = [''u1'' \<mapsto> newUser],
       achievementStore = [], gameTimers = Map.empty, emitted = [] \<rparr>"

definition sampleMove :: "int \<Rightarrow> int \<Rightarrow> server \<Rightarrow> server" where
  "sampleMove pos now sv =
     playerStep \<lparr> reqGameId = ''g1'', reqPosition = pos, reqUserId = ''u1'' \<rparr> now sv"

definition sampleEnd :: server where
  "sampleEnd =
     sampleMove 2 5000 (sampleMove 4 4000 (sampleMove 1 3000 (sampleMove 3 2000
       (sampleMove 0 1000
          \<lparr> serverState = sampleStart, queuedTurns = [], waitingTurns = [] \<rparr>))))"

text \<open>A game against the clock that is in progress, and a state that holds it.\<close>

definition timedGame :: game where
  "timedGame = localGame \<lparr> timerEnabled := True, playerXTimeRemaining := 60,
                           playerOTimeRemaining := 45, timerLastStartedAt := Some 1000 \<rparr>"

definition timedStart :: sys where
  "timedStart = sampleStart \<lparr> gameStore := [''g1'' \<mapsto> timedGame],
                              gameTimers := [''g1'' \<mapsto> (60000, PlayerX)] \<rparr>"

text \<open>A state whose game has ended already.\<close>

definition endedStart :: sys where
  "endedStart = timedStart \<lparr> gameStore := [''g1'' \<mapsto> timedGame \<lparr> status := completed,
                                                                  outcome := Some draw \<rparr>] \<rparr>"

text \<open>
  A second sample run, against the easy AI and the clock. The clock of \<open>X\<close> started at
  time 0 with 10 seconds, and the timeout of \<open>X\<close> is scheduled. \<open>X\<close> takes cell 0 after
  9.5 seconds, which leaves that timeout scheduled. The AI turn starts and draws a delay
  of 3 seconds. After 10 seconds the timeout of \<open>X\<close> fires and forfeits the game. After
  12.5 seconds the AI turn resumes, plays, and saves its document.
\<close>

definition clockGame :: game where
  "clockGame = localGame \<lparr> vs := AI, difficulty := Some easy, timerEnabled := True,
                           playerXTimeRemaining := 10, playerOTimeRemaining := 10,
                           timerLastStartedAt := Some 0 \<rparr>"

definition clockStart :: server where
  "clockStart =
     \<lparr> serverState = sampleStart \<lparr> gameStore := [''g1'' \<mapsto> clockGame],
                                    gameTimers := [''g1'' \<mapsto> (10000, PlayerX)] \<rparr>,
       queuedTurns = [], waitingTurns = [] \<rparr>"

definition clockMoved :: server where
  "clockMoved = sampleMove 0 9500 clockStart"

definition clockThinking :: server where
  "clockThinking = aiStartStep (1 / 8) 9500 clockMoved"

definition clockForfeited :: server where
  "clockForfeited = timeoutStep ''g1'' PlayerX 10000 clockThinking"

definition clockEnd :: server where
  "clockEnd = aiReplyStep 0 12500 clockForfeited"

section \<open>Win detection\<close>

lemma truthy_Some: "truthy v \<Longrightarrow> \<exists>s. v = Some s \<and> s \<noteq> []"
  by (cases v) auto

lemma lineHit_truthy: "lineHit b l \<Longrightarrow> truthy (cellAt b (hd l))"
  by (cases "(b, l)" rule: lineHit.cases) auto

lemma lineHit_hd: "lineHit b l \<Longrightarrow> \<exists>s. cellAt b (hd l) = Some s \<and> s \<noteq> []"
  by (rule truthy_Some) (rule lineHit_truthy)

lemma checkLines_None:
  "checkLines ls b = None \<longleftrightarrow> (\<forall>l \<in> set ls. \<not> lineHit b l)"
proof (induction ls)
  case Nil
  show ?case by simp
next
  case (Cons l ls)
  show ?case
  proof (cases "lineHit b l")
    case True
    with lineHit_hd [of b l] show ?thesis by auto
  next
    case False
    with Cons show ?thesis by simp
  qed
qed

lemma checkLines_first:
  "i < length ls \<Longrightarrow> lineHit b (ls ! i) \<Longrightarrow> (\<forall>j < i. \<not> lineHit b (ls ! j)) \<Longrightarrow>
   checkLines ls b = cellAt b (hd (ls ! i))"
proof (induction ls arbitrary: i)
  case Nil
  then show ?case by simp
next
  case (Cons l ls)
  show ?case
  proof (cases i)
    case 0
    with Cons.prems show ?thesis by simp
  next
    case (Suc k)
    from Cons.prems Suc have "\<not> lineHit b l" by auto
    moreover have "checkLines ls b = cellAt b (hd (ls ! k))"
    proof (rule Cons.IH)
      show "k < length ls" using Cons.prems Suc by simp
      show "lineHit b (ls ! k)" using Cons.prems Suc by simp
      show "\<forall>j < k. \<not> lineHit b (ls ! j)"
      proof (intro allI impI)
        fix j assume "j < k"
        then have "Suc j < i" using Suc by simp
        with Cons.prems(3) have "\<not> lineHit b ((l # ls) ! Suc j)" by blast
        then show "\<not> lineHit b (ls ! j)" by simp
      qed
    qed
    ultimately show ?thesis using Suc by simp
  qed
qed

lemma lineHit_filled:
  "length b = 9 \<Longrightarrow> l \<in> set winningLines \<Longrightarrow> lineHit b l = filledIdentically b l"
  unfolding winningLines_def filledIdentically_def
  by (elim disjE | simp add: cellAt_def)+

lemma hd_winning_line:
  "length b = 9 \<Longrightarrow> l \<in> set winningLines \<Longrightarrow> cellAt b (hd l) = Some (b ! (l ! 0))"
  unfolding winningLines_def
  by (elim disjE | simp add: cellAt_def)+

lemma checkWinner_None_iff:
  assumes "length b = 9"
  shows "checkWinner b = None \<longleftrightarrow> (\<forall>l \<in> set winningLines. \<not> filledIdentically b l)"
  using assms by (simp add: checkWinner_def checkLines_None lineHit_filled)

lemma checkWinner_first:
  assumes len: "length b = 9" and i: "i < length winningLines"
    and hit: "filledIdentically b (winningLines ! i)"
    and first: "\<forall>j < i. \<not> filledIdentically b (winningLines ! j)"
  shows "checkWinner b = Some (b ! (winningLines ! i ! 0))"
proof -
  have mem: "winningLines ! k \<in> set winningLines" if "k < length winningLines" for k
    using that by simp
  have "lineHit b (winningLines ! i)"
    using hit lineHit_filled [OF len mem [OF i]] by simp
  moreover have "\<forall>j < i. \<not> lineHit b (winningLines ! j)"
  proof (intro allI impI)
    fix j assume "j < i"
    then have "j < length winningLines" using i by simp
    from lineHit_filled [OF len mem [OF this]] first \<open>j < i\<close>
    show "\<not> lineHit b (winningLines ! j)" by simp
  qed
  ultimately have "checkLines winningLines b = cellAt b (hd (winningLines ! i))"
    using checkLines_first [OF i] by blast
  then show ?thesis
    using hd_winning_line [OF len mem [OF i]] by (simp add: checkWinner_def)
qed

lemma checkWinner_unless_earlier:
  assumes len: "length b = 9" and i: "i < length winningLines"
    and hit: "filledIdentically b (winningLines ! i)"
    and same: "\<forall>j < i. filledIdentically b (winningLines ! j) \<longrightarrow>
                 b ! (winningLines ! j ! 0) = b ! (winningLines ! i ! 0)"
  shows "checkWinner b = Some (b ! (winningLines ! i ! 0))"
proof -
  define k where "k = (LEAST j. filledIdentically b (winningLines ! j))"
  have k_hit: "filledIdentically b (winningLines ! k)"
    unfolding k_def using hit by (rule LeastI)
  have k_le: "k \<le> i"
    unfolding k_def using hit by (rule Least_le)
  have k_first: "\<forall>j < k. \<not> filledIdentically b (winningLines ! j)"
    unfolding k_def using not_less_Least by blast
  from k_le i have "k < length winningLines" by simp
  from checkWinner_first [OF len this k_hit k_first]
  have "checkWinner b = Some (b ! (winningLines ! k ! 0))" .
  moreover have "b ! (winningLines ! k ! 0) = b ! (winningLines ! i ! 0)"
  proof (cases "k = i")
    case True
    then show ?thesis by simp
  next
    case False
    with k_le have "k < i" by simp
    with same k_hit show ?thesis by blast
  qed
  ultimately show ?thesis by simp
qed

lemma isDraw_full:
  assumes "length b = 9" and "list_all (\<lambda>c. c \<noteq> []) b"
    and "\<forall>l \<in> set winningLines. \<not> filledIdentically b l"
  shows "checkWinner b = None \<and> isDraw b"
  using assms checkWinner_None_iff [of b] by (simp add: isDraw_def)


text \<open>
  Claim C1, as the code has it. For every 9-cell board, \<open>checkWinner\<close> returns the symbol
  of the first line, in the enumeration order rows, columns, diagonals, whose three cells
  are non-empty and identical, and nothing when there is no such line. So a board with one
  of the 8 lines filled identically yields the symbol of that line whenever every filled
  line before it in the order holds the same symbol (the rest of the cells arbitrary); and a
  full board with no filled line yields no winner and \<open>isDraw\<close> is true.
\<close>

theorem checkWinner_first_filled_line:
  assumes "length b = 9"
  shows "(checkWinner b = None \<longleftrightarrow> (\<forall>l \<in> set winningLines. \<not> filledIdentically b l)) \<and>
    (\<forall>i < length winningLines.
       filledIdentically b (winningLines ! i) \<and>
       (\<forall>j < i. \<not> filledIdentically b (winningLines ! j)) \<longrightarrow>
       checkWinner b = Some (b ! (winningLines ! i ! 0))) \<and>
    (\<forall>i < length winningLines.
       filledIdentically b (winningLines ! i) \<and>
       (\<forall>j < i. filledIdentically b (winningLines ! j) \<longrightarrow>
          b ! (winningLines ! j ! 0) = b ! (winningLines ! i ! 0)) \<longrightarrow>
       checkWinner b = Some (b ! (winningLines ! i ! 0))) \<and>
    (list_all (\<lambda>c. c \<noteq> []) b \<and> (\<forall>l \<in> set winningLines. \<not> filledIdentically b l) \<longrightarrow>
       checkWinner b = None \<and> isDraw b)"
proof (intro conjI allI impI)
  show "checkWinner b = None \<longleftrightarrow> (\<forall>l \<in> set winningLines. \<not> filledIdentically b l)"
    using assms by (rule checkWinner_None_iff)
next
  fix i
  assume "i < length winningLines"
    and "filledIdentically b (winningLines ! i) \<and>
         (\<forall>j < i. \<not> filledIdentically b (winningLines ! j))"
  then show "checkWinner b = Some (b ! (winningLines ! i ! 0))"
    using checkWinner_first [OF assms] by blast
next
  fix i
  assume "i < length winningLines"
    and "filledIdentically b (winningLines ! i) \<and>
         (\<forall>j < i. filledIdentically b (winningLines ! j) \<longrightarrow>
            b ! (winningLines ! j ! 0) = b ! (winningLines ! i ! 0))"
  then show "checkWinner b = Some (b ! (winningLines ! i ! 0))"
    using checkWinner_unless_earlier [OF assms] by blast
next
  assume "list_all (\<lambda>c. c \<noteq> []) b \<and> (\<forall>l \<in> set winningLines. \<not> filledIdentically b l)"
  then show "checkWinner b = None" using isDraw_full [OF assms] by blast
next
  assume "list_all (\<lambda>c. c \<noteq> []) b \<and> (\<forall>l \<in> set winningLines. \<not> filledIdentically b l)"
  then show "isDraw b" using isDraw_full [OF assms] by blast
qed

theorem checkWinner_first_filled_line_witness:
  "length topRowBoard = 9 \<and> filledIdentically topRowBoard (winningLines ! 0) \<and>
   checkWinner topRowBoard = Some ''X''"
proof -
  have len: "length topRowBoard = 9"
    by (simp add: topRowBoard_def)
  have hit: "filledIdentically topRowBoard (winningLines ! 0)"
    by (simp add: topRowBoard_def filledIdentically_def winningLines_def)
  have pos: "0 < length winningLines"
    by (simp add: winningLines_def)
  from checkWinner_first_filled_line [OF len] pos hit
  have "checkWinner topRowBoard = Some (topRowBoard ! (winningLines ! 0 ! 0))"
    by blast
  then have "checkWinner topRowBoard = Some ''X''"
    by (simp add: topRowBoard_def winningLines_def)
  with len hit show ?thesis by simp
qed

text \<open>
  The claim as written fails where a line earlier in the order is filled by the other
  symbol: the bottom row of this board is filled by \<open>X\<close>, and the winner is \<open>O\<close>.
\<close>

theorem checkWinner_other_line_counterexample:
  "length twoLinesBoard = 9 \<and> [6, 7, 8] \<in> set winningLines \<and>
   filledIdentically twoLinesBoard [6, 7, 8] \<and> twoLinesBoard ! 6 = ''X'' \<and>
   checkWinner twoLinesBoard = Some ''O''"
  by (simp add: twoLinesBoard_def filledIdentically_def winningLines_def checkWinner_def
      cellAt_def)

section \<open>Aging-aware board reconstruction\<close>

lemma length_placeMove [simp]: "length (placeMove b m) = length b"
  by (simp add: placeMove_def)

lemma length_foldl_placeMove [simp]: "length (foldl placeMove b ms) = length b"
  by (induction ms arbitrary: b) simp_all

lemma length_getBoardFromMoves [simp]: "length (getBoardFromMoves ms) = 9"
  by (simp add: getBoardFromMoves_def)

lemma placeMove_nth:
  "length b = 9 \<Longrightarrow> i < 9 \<Longrightarrow>
   placeMove b m ! i = (if position m = int i then sym (player m) else b ! i)"
  by (auto simp: placeMove_def nth_list_update)

lemma foldl_placeMove_snoc_nth:
  assumes "length b = 9" and "i < 9"
  shows "foldl placeMove b ms ! i =
     (case lastMoveAt ms i of None \<Rightarrow> b ! i | Some m \<Rightarrow> sym (player m))"
proof (induction ms rule: rev_induct)
  case Nil
  show ?case by (simp add: lastMoveAt_def)
next
  case (snoc m ms)
  have len: "length (foldl placeMove b ms) = 9" using assms by simp
  show ?case
  proof (cases "position m = int i")
    case True
    then show ?thesis
      using placeMove_nth [OF len assms(2)] by (simp add: lastMoveAt_def)
  next
    case False
    then have "lastMoveAt (ms @ [m]) i = lastMoveAt ms i"
      by (simp add: lastMoveAt_def)
    with False snoc show ?thesis
      using placeMove_nth [OF len assms(2)] by simp
  qed
qed

lemma getBoardFromMoves_nth:
  "i < 9 \<Longrightarrow> getBoardFromMoves ms ! i =
     (case lastMoveAt ms i of None \<Rightarrow> [] | Some m \<Rightarrow> sym (player m))"
proof -
  assume i: "i < 9"
  have "length (replicate 9 ([]::string)) = 9" by simp
  from foldl_placeMove_snoc_nth [OF this i, of ms]
  show ?thesis using i by (simp add: getBoardFromMoves_def split: option.splits)
qed

lemma isActive_expiredBy: "isActive n = (\<lambda>m. \<not> expiredBy n m)"
  by (rule ext) (auto simp: isActive_def expiredBy_def split: option.splits)

text \<open>
  Claim C2. \<open>getActiveBoardFromMoves\<close> leaves out exactly the moves whose
  \<open>expiredOnMove\<close> is set and at most \<open>currentMoveNumber\<close>, and replays the others in
  list order onto a blank board of 9 cells: each cell holds the symbol of the last
  remaining move placed on it, or is empty. On the two moves of the aging example, at move
  number 3 only cell 4 is occupied (by \<open>O\<close>); at move number 2 no move is left out and
  cell 0 still holds \<open>X\<close>.
\<close>

theorem getActiveBoardFromMoves_replay:
  "getActiveBoardFromMoves moves n = getBoardFromMoves (filter (\<lambda>m. \<not> expiredBy n m) moves) \<and>
   length (getActiveBoardFromMoves moves n) = 9 \<and>
   (\<forall>i < 9. getActiveBoardFromMoves moves n ! i =
      (case lastMoveAt (filter (\<lambda>m. \<not> expiredBy n m) moves) i of
         None \<Rightarrow> [] | Some m \<Rightarrow> sym (player m))) \<and>
   getActiveBoardFromMoves agingExample 3 = [[], [], [], [], ''O'', [], [], [], []] \<and>
   filter (\<lambda>m. \<not> expiredBy 2 m) agingExample = agingExample \<and>
   getActiveBoardFromMoves agingExample 2 = [''X'', [], [], [], ''O'', [], [], [], []]"
proof (intro conjI allI impI)
  show eq: "getActiveBoardFromMoves moves n =
      getBoardFromMoves (filter (\<lambda>m. \<not> expiredBy n m) moves)"
    by (simp add: getActiveBoardFromMoves_def isActive_expiredBy)
  show "length (getActiveBoardFromMoves moves n) = 9"
    by (simp add: getActiveBoardFromMoves_def)
  show "getActiveBoardFromMoves moves n ! i =
      (case lastMoveAt (filter (\<lambda>m. \<not> expiredBy n m) moves) i of
         None \<Rightarrow> [] | Some m \<Rightarrow> sym (player m))" if "i < 9" for i
    using that by (simp add: eq getBoardFromMoves_nth)
  show "getActiveBoardFromMoves agingExample 3 = [[], [], [], [], ''O'', [], [], [], []]"
    by (simp add: getActiveBoardFromMoves_def agingExample_def isActive_def
        getBoardFromMoves_def placeMove_def numeral_eq_Suc)
  show "filter (\<lambda>m. \<not> expiredBy 2 m) agingExample = agingExample"
    by (simp add: agingExample_def expiredBy_def)
  show "getActiveBoardFromMoves agingExample 2 = [''X'', [], [], [], ''O'', [], [], [], []]"
    by (simp add: getActiveBoardFromMoves_def agingExample_def isActive_def
        getBoardFromMoves_def placeMove_def numeral_eq_Suc)
qed

theorem getActiveBoardFromMoves_replay_witness:
  "(4::nat) < 9 \<and> getActiveBoardFromMoves agingExample 3 ! 4 = ''O'' \<and>
   getActiveBoardFromMoves agingExample 3 ! 0 = []"
proof -
  have four: "(4::nat) < 9" and zero: "(0::nat) < 9" by simp_all
  from getActiveBoardFromMoves_replay [of agingExample 3]
  have cells: "\<forall>i < 9. getActiveBoardFromMoves agingExample 3 ! i =
      (case lastMoveAt (filter (\<lambda>m. \<not> expiredBy 3 m) agingExample) i of
         None \<Rightarrow> [] | Some m \<Rightarrow> sym (player m))"
    by blast
  from cells four have "getActiveBoardFromMoves agingExample 3 ! 4 =
      (case lastMoveAt (filter (\<lambda>m. \<not> expiredBy 3 m) agingExample) 4 of
         None \<Rightarrow> [] | Some m \<Rightarrow> sym (player m))"
    by blast
  then have a: "getActiveBoardFromMoves agingExample 3 ! 4 = ''O''"
    by (simp add: agingExample_def expiredBy_def lastMoveAt_def)
  from cells zero have "getActiveBoardFromMoves agingExample 3 ! 0 =
      (case lastMoveAt (filter (\<lambda>m. \<not> expiredBy 3 m) agingExample) 0 of
         None \<Rightarrow> [] | Some m \<Rightarrow> sym (player m))"
    by blast
  then have b: "getActiveBoardFromMoves agingExample 3 ! 0 = []"
    by (simp add: agingExample_def expiredBy_def lastMoveAt_def)
  from a b show ?thesis by simp
qed

section \<open>Progression\<close>

lemma find_stage_negative: "points < 0 \<Longrightarrow> find (stageHolds points) STAGES = None"
  by (simp add: STAGES_def stageHolds_def)

text \<open>
  Claim C9. For every points value below 0, no stage of the table holds the value (each
  interval starts at 0 or above), so the search finds nothing and \<open>findStageForPoints\<close>
  falls back to the last entry of the table: Master 3 (minimum 18000, no cap), not
  Beginner 1.
\<close>

theorem findStageForPoints_negative:
  "points < 0 \<Longrightarrow>
   (\<forall>s \<in> set STAGES. \<not> stageHolds points s) \<and>
   findStageForPoints points = last STAGES \<and>
   label (findStageForPoints points) = ''Master 3'' \<and>
   stage_min (findStageForPoints points) = 18000 \<and>
   stage_max (findStageForPoints points) = None \<and>
   findStageForPoints points \<noteq> hd STAGES"
proof -
  assume neg: "points < 0"
  have none: "\<forall>s \<in> set STAGES. \<not> stageHolds points s"
    using neg by (simp add: STAGES_def stageHolds_def)
  have eq: "findStageForPoints points = STAGES ! (length STAGES - 1)"
    using find_stage_negative [OF neg] by (simp add: findStageForPoints_def)
  have l: "STAGES ! (length STAGES - 1) = last STAGES"
    by (simp add: STAGES_def)
  show ?thesis
    using none eq l by (simp add: STAGES_def)
qed

theorem findStageForPoints_negative_witness:
  "(-5::int) < 0 \<and> label (findStageForPoints (-5)) = ''Master 3'' \<and>
   stage_min (findStageForPoints (-5)) = 18000"
proof -
  have neg: "(-5::int) < 0" by simp
  from findStageForPoints_negative [OF neg]
  have "label (findStageForPoints (-5)) = ''Master 3''"
    and "stage_min (findStageForPoints (-5)) = 18000"
    by blast+
  with neg show ?thesis by blast
qed

text \<open>
  Claim C10. For a stored user whose \<open>currentSkill\<close> label is absent, \<open>applyGameResult\<close>
  reports \<open>leveledUp = true\<close> whatever the outcome (the previous label it returns is
  \<open>null\<close>, and the label of the new stage is a string), and stamps
  \<open>currentSkillAchievedAt\<close>; so it does on a new user's first completed game.
\<close>

theorem applyGameResult_first_level_up:
  assumes "users userId = Some u" and "prevLabelOf u = None"
  shows "leveledUp (fst (applyGameResult users userId oc now)) \<and>
         updated (fst (applyGameResult users userId oc now)) \<and>
         previousSkill (fst (applyGameResult users userId oc now)) = None \<and>
         map_option currentSkillAchievedAt (snd (applyGameResult users userId oc now) userId) =
           Some (Some now)"
  using assms by (simp add: applyGameResult_def Let_def)

theorem applyGameResult_first_level_up_witness:
  "[''u1'' \<mapsto> newUser] ''u1'' = Some newUser \<and> prevLabelOf newUser = None \<and>
   leveledUp (fst (applyGameResult [''u1'' \<mapsto> newUser] ''u1'' lose 7))"
proof -
  have a: "[''u1'' \<mapsto> newUser] ''u1'' = Some newUser" by simp
  have b: "prevLabelOf newUser = None" by (simp add: prevLabelOf_def newUser_def)
  from applyGameResult_first_level_up
    [of "[''u1'' \<mapsto> newUser]" "''u1''" newUser lose 7, OF a b]
  have "leveledUp (fst (applyGameResult [''u1'' \<mapsto> newUser] ''u1'' lose 7))"
    by blast
  with a b show ?thesis by blast
qed

section \<open>Achievement unlocking\<close>

lemma findUnlock_None: "findUnlock recs uid aid = None \<longleftrightarrow> unlockCount recs uid aid = 0"
  by (auto simp: findUnlock_def unlockCount_def find_None_iff filter_empty_conv)

lemma unlockCount_append:
  "unlockCount (xs @ ys) uid aid = unlockCount xs uid aid + unlockCount ys uid aid"
  by (simp add: unlockCount_def)

lemma unlockCount_Nil [simp]: "unlockCount [] uid aid = 0"
  by (simp add: unlockCount_def)

lemma unlockCount_Cons:
  "unlockCount (r # rs) uid aid =
     (if uaUserId r = uid \<and> uaAchievementId r = aid then 1 else 0) + unlockCount rs uid aid"
  by (simp add: unlockCount_def)

lemma unlockCount_created:
  "distinct (map newAchievementId xs) \<Longrightarrow>
   unlockCount (map (recordOf userId) xs) uid aid =
     (if uid = userId \<and> aid \<in> newAchievementId ` set xs then 1 else 0)"
proof (induction xs)
  case Nil
  show ?case by simp
next
  case (Cons x xs)
  then have ih: "unlockCount (map (recordOf userId) xs) uid aid =
     (if uid = userId \<and> aid \<in> newAchievementId ` set xs then 1 else 0)"
    and notin: "newAchievementId x \<notin> newAchievementId ` set xs"
    by simp_all
  have hd: "uaUserId (recordOf userId x) = userId"
    "uaAchievementId (recordOf userId x) = newAchievementId x"
    by (simp_all add: recordOf_def)
  show ?case
    using notin by (auto simp: unlockCount_Cons ih hd)
qed

lemma unlockCount_recordOf:
  "unlockCount [recordOf uid n] uid' aid = (if uid' = uid \<and> aid = newAchievementId n then 1 else 0)"
  by (auto simp: unlockCount_def recordOf_def)

lemma unlockStep_cases:
  "unlockStep u uid now (acc, recs) d =
     (if unlockCount recs uid (achId d) = 0 \<and> achCondition d u
      then (acc @ [\<lparr> newAchievementId = achId d, newUnlockedAt = now \<rparr>],
            recs @ [recordOf uid \<lparr> newAchievementId = achId d, newUnlockedAt = now \<rparr>])
      else (acc, recs))"
proof (cases "findUnlock recs uid (achId d)")
  case None
  then have "unlockCount recs uid (achId d) = 0" by (simp add: findUnlock_None)
  with None show ?thesis by (simp add: unlockStep_def recordOf_def)
next
  case (Some r)
  then have "unlockCount recs uid (achId d) \<noteq> 0"
    using findUnlock_None [of recs uid "achId d"] by simp
  with Some show ?thesis by (simp add: unlockStep_def)
qed

lemma unlock_fold_shape:
  "\<exists>new. foldl (unlockStep u uid now) (acc, recs) ds = (acc @ new, recs @ map (recordOf uid) new) \<and>
         distinct (map newAchievementId new) \<and>
         (\<forall>n \<in> set new. unlockCount recs uid (newAchievementId n) = 0 \<and> newUnlockedAt n = now)"
proof (induction ds arbitrary: acc recs)
  case Nil
  show ?case by simp
next
  case (Cons d ds)
  let ?n = "\<lparr> newAchievementId = achId d, newUnlockedAt = now \<rparr>"
  show ?case
  proof (cases "unlockCount recs uid (achId d) = 0 \<and> achCondition d u")
    case True
    from Cons.IH [of "acc @ [?n]" "recs @ [recordOf uid ?n]"]
    obtain new where
      f: "foldl (unlockStep u uid now) (acc @ [?n], recs @ [recordOf uid ?n]) ds =
            ((acc @ [?n]) @ new, (recs @ [recordOf uid ?n]) @ map (recordOf uid) new)"
      and dist: "distinct (map newAchievementId new)"
      and zero: "\<forall>n \<in> set new.
          unlockCount (recs @ [recordOf uid ?n]) uid (newAchievementId n) = 0 \<and> newUnlockedAt n = now"
      by blast
    have fresh: "achId d \<notin> newAchievementId ` set new"
    proof
      assume "achId d \<in> newAchievementId ` set new"
      then obtain n where n: "n \<in> set new" and eq: "newAchievementId n = achId d" by auto
      from zero n
      have "unlockCount (recs @ [recordOf uid ?n]) uid (newAchievementId n) = 0" by blast
      with eq show False by (simp add: unlockCount_append unlockCount_recordOf)
    qed
    have zero': "unlockCount recs uid (newAchievementId n) = 0 \<and> newUnlockedAt n = now"
      if "n \<in> set new" for n
      using zero that by (simp add: unlockCount_append)
    have "foldl (unlockStep u uid now) (acc, recs) (d # ds) =
            (acc @ (?n # new), recs @ map (recordOf uid) (?n # new))"
      using True f by (simp add: unlockStep_cases)
    moreover have "distinct (map newAchievementId (?n # new))"
      using dist fresh by simp
    moreover have "\<forall>n \<in> set (?n # new).
        unlockCount recs uid (newAchievementId n) = 0 \<and> newUnlockedAt n = now"
      using True zero' by simp
    ultimately show ?thesis by blast
  next
    case False
    then have "unlockStep u uid now (acc, recs) d = (acc, recs)"
      by (auto simp: unlockStep_cases)
    then have "foldl (unlockStep u uid now) (acc, recs) (d # ds) =
        foldl (unlockStep u uid now) (acc, recs) ds"
      by simp
    with Cons.IH [of acc recs] show ?thesis by simp
  qed
qed

lemma unlock_fold_noop:
  "(\<forall>d \<in> set ds. unlockCount recs uid (achId d) \<noteq> 0 \<or> \<not> achCondition d u) \<Longrightarrow>
   foldl (unlockStep u uid now) (acc, recs) ds = (acc, recs)"
  by (induction ds) (auto simp: unlockStep_cases)

lemma unlock_fold_mono:
  "unlockCount (snd st) uid' aid \<le> unlockCount (snd (foldl (unlockStep u uid now) st ds)) uid' aid"
proof -
  obtain acc recs where st: "st = (acc, recs)" by (cases st)
  from unlock_fold_shape [of u uid now acc recs ds] st show ?thesis
    by (auto simp: unlockCount_append)
qed

lemma unlock_fold_covers:
  "d \<in> set ds \<Longrightarrow> achCondition d u \<Longrightarrow>
   unlockCount (snd (foldl (unlockStep u uid now) st ds)) uid (achId d) \<noteq> 0"
proof (induction ds arbitrary: st)
  case Nil
  then show ?case by simp
next
  case (Cons e ds)
  obtain acc recs where st: "st = (acc, recs)" by (cases st)
  show ?case
  proof (cases "e = d")
    case True
    have "unlockCount (snd (unlockStep u uid now st d)) uid (achId d) \<noteq> 0"
      using Cons.prems(2) st
      by (simp add: unlockStep_cases unlockCount_append unlockCount_recordOf)
    moreover have "unlockCount (snd (unlockStep u uid now st d)) uid (achId d)
        \<le> unlockCount (snd (foldl (unlockStep u uid now) (unlockStep u uid now st d) ds)) uid (achId d)"
      by (rule unlock_fold_mono)
    ultimately show ?thesis using True by simp
  next
    case False
    with Cons.prems have "d \<in> set ds" by simp
    from Cons.IH [OF this Cons.prems(2)] show ?thesis by simp
  qed
qed


text \<open>
  Claim C6. \<open>checkAndUnlockAchievements\<close> is idempotent for every user and every
  collection of unlock records. The records it creates are those of the entries it returns,
  one entry per achievement at most, and none for an achievement the user had already
  unlocked; so a pair (user, achievement) with at most one record keeps at most one. A
  second call right after the first returns the empty list and creates nothing. An
  achievement of the catalogue whose condition the user's statistics satisfy, and which was
  not unlocked before, is returned by the first call and has exactly one record after the
  first call and after the second.
\<close>

theorem checkAndUnlockAchievements_idempotent:
  fixes users recs userId now1 now2
  defines "r1 \<equiv> checkAndUnlockAchievements users recs userId now1"
  defines "r2 \<equiv> checkAndUnlockAchievements users (snd r1) userId now2"
  shows "snd r1 = recs @ map (recordOf userId) (fst r1) \<and>
         distinct (map newAchievementId (fst r1)) \<and>
         (\<forall>n \<in> set (fst r1). unlockCount recs userId (newAchievementId n) = 0) \<and>
         (\<forall>uid aid. unlockCount recs uid aid \<le> 1 \<longrightarrow> unlockCount (snd r1) uid aid \<le> 1) \<and>
         fst r2 = [] \<and> snd r2 = snd r1 \<and>
         (\<forall>d \<in> set ACHIEVEMENTS. \<forall>u.
            users userId = Some u \<and> achCondition d u \<and> unlockCount recs userId (achId d) = 0 \<longrightarrow>
            achId d \<in> newAchievementId ` set (fst r1) \<and>
            unlockCount (snd r1) userId (achId d) = 1 \<and>
            unlockCount (snd r2) userId (achId d) = 1)"
proof (cases "users userId")
  case None
  then show ?thesis by (simp add: r1_def r2_def checkAndUnlockAchievements_def)
next
  case (Some u)
  let ?F = "\<lambda>now recs. foldl (unlockStep u userId now) ([], recs) ACHIEVEMENTS"
  have r1: "r1 = ?F now1 recs"
    using Some by (simp add: r1_def checkAndUnlockAchievements_def)
  have r2: "r2 = ?F now2 (snd r1)"
    using Some by (simp add: r2_def checkAndUnlockAchievements_def)
  from unlock_fold_shape [of u userId now1 "[]" recs ACHIEVEMENTS] r1
  obtain new where new: "r1 = (new, recs @ map (recordOf userId) new)"
    and dist: "distinct (map newAchievementId new)"
    and zero: "\<forall>n \<in> set new. unlockCount recs userId (newAchievementId n) = 0"
    by auto
  have cnt: "unlockCount (snd r1) uid aid =
      unlockCount recs uid aid + (if uid = userId \<and> aid \<in> newAchievementId ` set new then 1 else 0)"
    for uid aid
  proof -
    from unlockCount_created [OF dist] show ?thesis
      by (simp add: new unlockCount_append)
  qed
  have bound: "unlockCount (snd r1) uid aid \<le> 1" if "unlockCount recs uid aid \<le> 1" for uid aid
  proof (cases "uid = userId \<and> aid \<in> newAchievementId ` set new")
    case True
    with zero have "unlockCount recs uid aid = 0" by auto
    with True show ?thesis by (simp add: cnt)
  next
    case False
    then have "unlockCount (snd r1) uid aid = unlockCount recs uid aid"
      by (auto simp: cnt)
    with that show ?thesis by simp
  qed
  have covered: "unlockCount (snd r1) userId (achId d) \<noteq> 0 \<or> \<not> achCondition d u"
    if "d \<in> set ACHIEVEMENTS" for d
    using unlock_fold_covers [OF that, of u userId now1 "([], recs)"] r1 by auto
  have second: "r2 = ([], snd r1)"
    unfolding r2 by (rule unlock_fold_noop) (use covered in blast)
  have once: "achId d \<in> newAchievementId ` set (fst r1) \<and>
      unlockCount (snd r1) userId (achId d) = 1 \<and> unlockCount (snd r2) userId (achId d) = 1"
    if d: "d \<in> set ACHIEVEMENTS" and c: "achCondition d u"
      and z: "unlockCount recs userId (achId d) = 0" for d
  proof -
    from covered [OF d] c have nz: "unlockCount (snd r1) userId (achId d) \<noteq> 0" by simp
    with z have mem: "achId d \<in> newAchievementId ` set new"
      by (simp add: cnt split: if_splits)
    with z have "unlockCount (snd r1) userId (achId d) = 1" by (simp add: cnt)
    with mem show ?thesis by (simp add: second new)
  qed
  show ?thesis
  proof (intro conjI)
    show "snd r1 = recs @ map (recordOf userId) (fst r1)" by (simp add: new)
    show "distinct (map newAchievementId (fst r1))" using dist by (simp add: new)
    show "\<forall>n \<in> set (fst r1). unlockCount recs userId (newAchievementId n) = 0"
      using zero by (simp add: new)
    show "\<forall>uid aid. unlockCount recs uid aid \<le> 1 \<longrightarrow> unlockCount (snd r1) uid aid \<le> 1"
      using bound by blast
    show "fst r2 = []" by (simp add: second)
    show "snd r2 = snd r1" by (simp add: second)
    show "\<forall>d \<in> set ACHIEVEMENTS. \<forall>u.
            users userId = Some u \<and> achCondition d u \<and> unlockCount recs userId (achId d) = 0 \<longrightarrow>
            achId d \<in> newAchievementId ` set (fst r1) \<and>
            unlockCount (snd r1) userId (achId d) = 1 \<and>
            unlockCount (snd r2) userId (achId d) = 1"
      using once Some by auto
  qed
qed

theorem checkAndUnlockAchievements_idempotent_witness:
  "[''u1'' \<mapsto> oneWinUser] ''u1'' = Some oneWinUser \<and>
   hd ACHIEVEMENTS \<in> set ACHIEVEMENTS \<and> achId (hd ACHIEVEMENTS) = ''FIRST_WIN'' \<and>
   achCondition (hd ACHIEVEMENTS) oneWinUser \<and>
   unlockCount [] ''u1'' ''FIRST_WIN'' = 0 \<and>
   unlockCount (snd (checkAndUnlockAchievements [''u1'' \<mapsto> oneWinUser] [] ''u1'' 1))
     ''u1'' ''FIRST_WIN'' = 1 \<and>
   fst (checkAndUnlockAchievements [''u1'' \<mapsto> oneWinUser]
     (snd (checkAndUnlockAchievements [''u1'' \<mapsto> oneWinUser] [] ''u1'' 1)) ''u1'' 2) = []"
proof -
  let ?users = "[''u1'' \<mapsto> oneWinUser]"
  have a: "?users ''u1'' = Some oneWinUser" by simp
  have b: "hd ACHIEVEMENTS \<in> set ACHIEVEMENTS" by (simp add: ACHIEVEMENTS_def)
  have c: "achId (hd ACHIEVEMENTS) = ''FIRST_WIN''" by (simp add: ACHIEVEMENTS_def)
  have d: "achCondition (hd ACHIEVEMENTS) oneWinUser"
    by (simp add: ACHIEVEMENTS_def oneWinUser_def newUser_def)
  have e: "unlockCount [] ''u1'' (achId (hd ACHIEVEMENTS)) = 0" by (simp add: unlockCount_def)
  note inst = checkAndUnlockAchievements_idempotent [of ?users "[]" "''u1''" 1 2]
  from inst a b d e
  have "unlockCount (snd (checkAndUnlockAchievements ?users [] ''u1'' 1)) ''u1''
      (achId (hd ACHIEVEMENTS)) = 1"
    by blast
  moreover from inst
  have "fst (checkAndUnlockAchievements ?users
     (snd (checkAndUnlockAchievements ?users [] ''u1'' 1)) ''u1'' 2) = []"
    by blast
  ultimately show ?thesis using a b c d e by simp
qed

section \<open>Minimax search\<close>

declare minimax.simps [simp del]

lemma scoreLess_trichotomy: "\<not> scoreLess a b \<Longrightarrow> a \<noteq> b \<Longrightarrow> scoreLess b a"
  by (cases a; cases b) auto

lemma scoreLess_irrefl [simp]: "\<not> scoreLess a a"
  by (cases a) auto

lemma scoreLess_trans: "scoreLess a b \<Longrightarrow> scoreLess b c \<Longrightarrow> scoreLess a c"
  by (cases a; cases b; cases c) auto

lemma pickBetter_max:
  "pickBetter True f best m =
     (if scoreLess (score best) (f m) then \<lparr> score = f m, index = int m \<rparr> else best)"
  by (simp add: pickBetter_def)

lemma maxfold_keep:
  "score best = hi \<Longrightarrow> \<forall>m \<in> set ms. \<not> scoreLess hi (f m) \<Longrightarrow>
   foldl (pickBetter True f) best ms = best"
  by (induction ms) (simp_all add: pickBetter_max)

lemma maxfold_top:
  assumes "\<forall>m \<in> set ms. \<not> scoreLess hi (f m)" and "\<exists>w \<in> set ms. f w = hi"
    and "scoreLess (score best) hi"
  shows "\<exists>pre m0 post. ms = pre @ m0 # post \<and> (\<forall>m \<in> set pre. f m \<noteq> hi) \<and> f m0 = hi \<and>
           foldl (pickBetter True f) best ms = \<lparr> score = hi, index = int m0 \<rparr>"
  using assms
proof (induction ms arbitrary: best)
  case Nil
  then show ?case by simp
next
  case (Cons m ms)
  show ?case
  proof (cases "f m = hi")
    case True
    with Cons.prems(3) have "pickBetter True f best m = \<lparr> score = hi, index = int m \<rparr>"
      by (simp add: pickBetter_max)
    moreover have "foldl (pickBetter True f) \<lparr> score = hi, index = int m \<rparr> ms =
        \<lparr> score = hi, index = int m \<rparr>"
      using Cons.prems(1) by (intro maxfold_keep) auto
    ultimately have "foldl (pickBetter True f) best (m # ms) = \<lparr> score = hi, index = int m \<rparr>"
      by simp
    with True have "m # ms = [] @ m # ms \<and> (\<forall>k \<in> set []. f k \<noteq> hi) \<and> f m = hi \<and>
        foldl (pickBetter True f) best (m # ms) = \<lparr> score = hi, index = int m \<rparr>"
      by simp
    then show ?thesis by blast
  next
    case False
    from Cons.prems(1) have "\<not> scoreLess hi (f m)" by simp
    with False have lt: "scoreLess (f m) hi"
      using scoreLess_trichotomy [of hi "f m"] by auto
    have below: "scoreLess (score (pickBetter True f best m)) hi"
      using lt Cons.prems(3) by (simp add: pickBetter_max)
    from Cons.prems(2) False have ex: "\<exists>w \<in> set ms. f w = hi" by auto
    from Cons.prems(1) have ub: "\<forall>k \<in> set ms. \<not> scoreLess hi (f k)" by simp
    from Cons.IH [OF ub ex below]
    obtain pre m0 post where ms: "ms = pre @ m0 # post"
      and pre: "\<forall>k \<in> set pre. f k \<noteq> hi" and m0: "f m0 = hi"
      and res: "foldl (pickBetter True f) (pickBetter True f best m) ms =
                  \<lparr> score = hi, index = int m0 \<rparr>"
      by blast
    have "m # ms = (m # pre) @ m0 # post \<and> (\<forall>k \<in> set (m # pre). f k \<noteq> hi) \<and> f m0 = hi \<and>
        foldl (pickBetter True f) best (m # ms) = \<lparr> score = hi, index = int m0 \<rparr>"
      using ms pre m0 res False by simp
    then show ?thesis by blast
  qed
qed

lemma fold_score_in:
  "score best \<in> S \<Longrightarrow> score (foldl (pickBetter mx f) best ms) \<in> S \<union> f ` set ms"
proof (induction ms arbitrary: best S)
  case Nil
  then show ?case by simp
next
  case (Cons m ms)
  have "score (pickBetter mx f best m) \<in> insert (f m) S"
    using Cons.prems by (simp add: pickBetter_def)
  from Cons.IH [OF this] show ?case by auto
qed

lemma fold_score_from_init:
  assumes "ms \<noteq> []" and "\<forall>m \<in> set ms. \<exists>v. f m = Fin v"
  shows "score (foldl (pickBetter mx f)
           \<lparr> score = (if mx then NegInfinity else PosInfinity), index = - 1 \<rparr> ms) \<in> f ` set ms"
proof -
  from assms(1) obtain m rest where ms: "ms = m # rest" by (cases ms) auto
  from assms(2) ms obtain v where v: "f m = Fin v" by auto
  let ?init = "\<lparr> score = (if mx then NegInfinity else PosInfinity), index = - 1 \<rparr>"
  have "pickBetter mx f ?init m = \<lparr> score = f m, index = int m \<rparr>"
    by (simp add: pickBetter_def v)
  then have "score (pickBetter mx f ?init m) \<in> {f m}" by simp
  from fold_score_in [OF this, of mx f rest] show ?thesis by (auto simp: ms)
qed

lemma cellAt_in_set: "cellAt b i = Some s \<Longrightarrow> s \<in> set b"
  by (auto simp: cellAt_def split: if_splits)

lemma checkLines_Some: "checkLines ls b = Some s \<Longrightarrow> s \<in> set b \<and> s \<noteq> []"
proof (induction ls)
  case Nil
  then show ?case by simp
next
  case (Cons l ls)
  show ?case
  proof (cases "lineHit b l")
    case True
    with Cons.prems have "cellAt b (hd l) = Some s" by simp
    with lineHit_hd [OF True] show ?thesis by (auto dest: cellAt_in_set)
  next
    case False
    with Cons show ?thesis by simp
  qed
qed

lemma wellFormed_winner:
  "wellFormed b \<Longrightarrow> checkWinner b = None \<or> checkWinner b = Some ''X'' \<or> checkWinner b = Some ''O''"
proof (cases "checkWinner b")
  case None
  then show ?thesis by simp
next
  case (Some s)
  assume "wellFormed b"
  moreover from Some have "s \<in> set b \<and> s \<noteq> []"
    using checkLines_Some by (simp add: checkWinner_def)
  ultimately show ?thesis using Some by (auto simp: wellFormed_def list_all_iff)
qed

lemma wellFormed_update:
  "wellFormed b \<Longrightarrow> s = ''X'' \<or> s = ''O'' \<Longrightarrow> wellFormed (b[i := s])"
  by (auto simp: wellFormed_def list_all_iff dest!: set_update_subset_insert [THEN subsetD])

lemma available_nonempty:
  "\<not> list_all (\<lambda>cell. cell \<noteq> []) b \<Longrightarrow> getAvailableMoves b \<noteq> []"
proof -
  assume "\<not> list_all (\<lambda>cell. cell \<noteq> []) b"
  then obtain i where "i < length b" "b ! i = []"
    by (auto simp: list_all_iff in_set_conv_nth)
  then have "i \<in> set (getAvailableMoves b)" by (simp add: getAvailableMoves_def)
  then show ?thesis by auto
qed

lemma available_empty_cell:
  "m \<in> set (getAvailableMoves b) \<Longrightarrow> m < length b \<and> b ! m = []"
  by (simp add: getAvailableMoves_def)

lemma minimax_score_range:
  "wellFormed b \<Longrightarrow> score (minimax b d mx) \<in> {Fin (- 10), Fin 0, Fin 10}"
proof (induction d arbitrary: b mx)
  case 0
  then show ?case by (simp add: minimax.simps)
next
  case (Suc d)
  let ?f = "\<lambda>move. score (minimax (b[move := (if mx then ''O'' else ''X'')]) d (\<not> mx))"
  let ?init = "\<lparr> score = (if mx then NegInfinity else PosInfinity), index = - 1 \<rparr>"
  have range: "?f m \<in> {Fin (- 10), Fin 0, Fin 10}" for m
    by (rule Suc.IH) (use Suc.prems in \<open>simp add: wellFormed_update\<close>)
  show ?case
  proof (cases "checkWinner b = Some ''O'' \<or> checkWinner b = Some ''X'' \<or> isDraw b")
    case True
    then show ?thesis by (auto simp: minimax.simps [of b "Suc d"])
  next
    case False
    with wellFormed_winner [OF Suc.prems] have none: "checkWinner b = None" by auto
    with False have "\<not> list_all (\<lambda>cell. cell \<noteq> []) b" by (simp add: isDraw_def)
    then have ne: "getAvailableMoves b \<noteq> []" by (rule available_nonempty)
    have fin: "\<forall>m \<in> set (getAvailableMoves b). \<exists>v. ?f m = Fin v"
      using range by blast
    have "minimax b (Suc d) mx = foldl (pickBetter mx ?f) ?init (getAvailableMoves b)"
      using False by (simp add: minimax.simps [of b "Suc d"])
    moreover from fold_score_from_init [OF ne fin, of mx]
    obtain m where "score (foldl (pickBetter mx ?f) ?init (getAvailableMoves b)) = ?f m"
      by auto
    ultimately have "score (minimax b (Suc d) mx) = ?f m" by simp
    with range [of m] show ?thesis by simp
  qed
qed

lemma sorted_available: "sorted (getAvailableMoves b)"
  unfolding getAvailableMoves_def by (rule sorted_wrt_filter) simp

lemma winning_child_score:
  "checkWinner b' = Some ''O'' \<Longrightarrow> score (minimax b' d mx) = Fin 10"
  by (simp add: minimax.simps [of b' d])

lemma depth0_score:
  "score (minimax b' 0 mx) = Fin 10 \<longleftrightarrow> checkWinner b' = Some ''O''"
  by (simp add: minimax.simps [of b' 0])

lemma root_search:
  assumes wf: "wellFormed b" and nowin: "checkWinner b = None" and w: "winsNow b w"
  shows "\<exists>m. index (minimax b (Suc d) True) = int m \<and> m \<in> set (getAvailableMoves b) \<and>
           score (minimax (b[m := ''O'']) d False) = Fin 10 \<and>
           (\<forall>m' \<in> set (getAvailableMoves b). m' < m \<longrightarrow>
              score (minimax (b[m' := ''O'']) d False) \<noteq> Fin 10)"
proof -
  let ?f = "\<lambda>move. score (minimax (b[move := ''O'']) d False)"
  let ?init = "\<lparr> score = NegInfinity, index = - 1 \<rparr>"
  from w have wa: "w \<in> set (getAvailableMoves b)"
    and ww: "checkWinner (b[w := ''O'']) = Some ''O''"
    by (simp_all add: winsNow_def)
  from available_empty_cell [OF wa] have "\<not> list_all (\<lambda>cell. cell \<noteq> []) b"
    by (auto simp: list_all_iff in_set_conv_nth)
  then have nodraw: "\<not> isDraw b" by (simp add: isDraw_def)
  have unfold: "minimax b (Suc d) True = foldl (pickBetter True ?f) ?init (getAvailableMoves b)"
    using nowin nodraw by (simp add: minimax.simps [of b "Suc d"])
  have ub: "\<forall>m \<in> set (getAvailableMoves b). \<not> scoreLess (Fin 10) (?f m)"
  proof
    fix m
    have "wellFormed (b[m := ''O''])" using wf by (simp add: wellFormed_update)
    from minimax_score_range [OF this, of d False]
    show "\<not> scoreLess (Fin 10) (?f m)" by auto
  qed
  have ex: "\<exists>w \<in> set (getAvailableMoves b). ?f w = Fin 10"
    using wa winning_child_score [OF ww] by blast
  have below: "scoreLess (score ?init) (Fin 10)" by simp
  from maxfold_top [of "getAvailableMoves b" "Fin 10" ?f ?init, OF ub ex below]
  obtain pre m0 post where split: "getAvailableMoves b = pre @ m0 # post"
    and pre: "\<forall>m \<in> set pre. ?f m \<noteq> Fin 10" and m0: "?f m0 = Fin 10"
    and res: "foldl (pickBetter True ?f) ?init (getAvailableMoves b) =
                \<lparr> score = Fin 10, index = int m0 \<rparr>"
    by blast
  have "sorted (pre @ m0 # post)" using sorted_available [of b] split by simp
  then have later: "\<forall>x \<in> set post. m0 \<le> x" by (simp add: sorted_append)
  have first: "?f m' \<noteq> Fin 10" if "m' \<in> set (getAvailableMoves b)" and "m' < m0" for m'
  proof -
    from that later split have "m' \<in> set pre" by auto
    with pre show ?thesis by blast
  qed
  have "index (minimax b (Suc d) True) = int m0" using unfold res by simp
  moreover have "m0 \<in> set (getAvailableMoves b)" using split by simp
  ultimately show ?thesis using m0 first by blast
qed

lemma pick_max_ten:
  assumes "(f m \<in> {Fin (- 10), Fin 0, Fin 10})" and "(score best \<in> {Fin (- 10), Fin 0, Fin 10}) \<or> score best = NegInfinity"
  shows "score (pickBetter True f best m) = Fin 10 \<longleftrightarrow> score best = Fin 10 \<or> f m = Fin 10"
  using assms by (auto simp: pickBetter_def)

lemma pick_max_range:
  assumes "(f m \<in> {Fin (- 10), Fin 0, Fin 10})" and "(score best \<in> {Fin (- 10), Fin 0, Fin 10}) \<or> score best = NegInfinity"
  shows "(score (pickBetter True f best m) \<in> {Fin (- 10), Fin 0, Fin 10})"
  using assms by (auto simp: pickBetter_def)

lemma maxfold_ten:
  assumes "\<forall>m \<in> set ms. (f m \<in> {Fin (- 10), Fin 0, Fin 10})" and "(score best \<in> {Fin (- 10), Fin 0, Fin 10}) \<or> score best = NegInfinity"
  shows "score (foldl (pickBetter True f) best ms) = Fin 10 \<longleftrightarrow>
         score best = Fin 10 \<or> (\<exists>m \<in> set ms. f m = Fin 10)"
  using assms
proof (induction ms arbitrary: best)
  case Nil
  then show ?case by simp
next
  case (Cons m ms)
  from Cons.prems have fm: "(f m \<in> {Fin (- 10), Fin 0, Fin 10})" by simp
  have r: "(score (pickBetter True f best m) \<in> {Fin (- 10), Fin 0, Fin 10}) \<or> score (pickBetter True f best m) = NegInfinity"
    using pick_max_range [of f m best, OF fm Cons.prems(2)] by simp
  from Cons.prems(1) have rest: "\<forall>k \<in> set ms. (f k \<in> {Fin (- 10), Fin 0, Fin 10})" by simp
  from Cons.IH [OF rest r] pick_max_ten [of f m best, OF fm Cons.prems(2)]
  show ?case by auto
qed

lemma pick_min_top:
  assumes "(f m \<in> {Fin (- 10), Fin 0, Fin 10})" and "(score best \<in> {Fin (- 10), Fin 0, Fin 10}) \<or> score best = PosInfinity"
  shows "(score (pickBetter False f best m) \<in> {Fin 10, PosInfinity}) \<longleftrightarrow> (score best \<in> {Fin 10, PosInfinity}) \<and> f m = Fin 10"
    and "(score (pickBetter False f best m) \<in> {Fin (- 10), Fin 0, Fin 10})"
  using assms by (auto simp: pickBetter_def)

lemma minfold_top:
  assumes "\<forall>m \<in> set ms. (f m \<in> {Fin (- 10), Fin 0, Fin 10})" and "(score best \<in> {Fin (- 10), Fin 0, Fin 10}) \<or> score best = PosInfinity"
  shows "(score (foldl (pickBetter False f) best ms) \<in> {Fin 10, PosInfinity}) \<longleftrightarrow>
         (score best \<in> {Fin 10, PosInfinity}) \<and> (\<forall>m \<in> set ms. f m = Fin 10)"
  using assms
proof (induction ms arbitrary: best)
  case Nil
  then show ?case by simp
next
  case (Cons m ms)
  from Cons.prems have fm: "(f m \<in> {Fin (- 10), Fin 0, Fin 10})" by simp
  note step = pick_min_top [of f m best, OF fm Cons.prems(2)]
  from Cons.prems(1) have rest: "\<forall>k \<in> set ms. (f k \<in> {Fin (- 10), Fin 0, Fin 10})" by simp
  from step(2) have r: "(score (pickBetter False f best m) \<in> {Fin (- 10), Fin 0, Fin 10}) \<or>
      score (pickBetter False f best m) = PosInfinity" by simp
  from Cons.IH [OF rest r] step(1) show ?case by auto
qed

lemma minimax_forced:
  "wellFormed b \<Longrightarrow> score (minimax b n mx) = Fin 10 \<longleftrightarrow> forcedWin n mx b"
proof (induction n arbitrary: b mx)
  case 0
  show ?case by (simp add: depth0_score)
next
  case (Suc n)
  let ?s = "if mx then ''O'' else ''X''"
  let ?f = "\<lambda>move. score (minimax (b[move := ?s]) n (\<not> mx))"
  let ?init = "\<lparr> score = (if mx then NegInfinity else PosInfinity), index = - 1 \<rparr>"
  have wf: "wellFormed (b[m := ?s])" for m
    using Suc.prems by (simp add: wellFormed_update)
  have range: "(?f m \<in> {Fin (- 10), Fin 0, Fin 10})" for m
    using minimax_score_range [OF wf, of m n "\<not> mx"] by simp
  have ih: "?f m = Fin 10 \<longleftrightarrow> forcedWin n (\<not> mx) (b[m := ?s])" for m
    by (rule Suc.IH) (rule wf)
  consider (o) "checkWinner b = Some ''O''" | (x) "checkWinner b = Some ''X''"
    | (d) "checkWinner b = None" "isDraw b" | (playing) "checkWinner b = None" "\<not> isDraw b"
    using wellFormed_winner [OF Suc.prems] by (cases "isDraw b") auto
  then show ?case
  proof cases
    case o
    then show ?thesis by (simp add: minimax.simps [of b "Suc n"])
  next
    case x
    then show ?thesis by (simp add: minimax.simps [of b "Suc n"])
  next
    case d
    then show ?thesis by (simp add: minimax.simps [of b "Suc n"])
  next
    case playing
    then have unfold: "minimax b (Suc n) mx = foldl (pickBetter mx ?f) ?init (getAvailableMoves b)"
      by (simp add: minimax.simps [of b "Suc n"])
    from playing have "\<not> list_all (\<lambda>cell. cell \<noteq> []) b" by (simp add: isDraw_def)
    then have ne: "getAvailableMoves b \<noteq> []" by (rule available_nonempty)
    have all: "\<forall>m \<in> set (getAvailableMoves b). (?f m \<in> {Fin (- 10), Fin 0, Fin 10})" using range by blast
    show ?thesis
    proof (cases mx)
      case True
      have "score (minimax b (Suc n) mx) = Fin 10 \<longleftrightarrow>
          (\<exists>m \<in> set (getAvailableMoves b). ?f m = Fin 10)"
        using maxfold_ten [OF all, of ?init] True unfold by simp
      also have "\<dots> \<longleftrightarrow> (\<exists>m \<in> set (getAvailableMoves b). forcedWin n False (b[m := ''O'']))"
        using ih True by simp
      finally show ?thesis using playing True by simp
    next
      case False
      from minimax_score_range [OF Suc.prems, of "Suc n" mx]
      have "score (minimax b (Suc n) mx) \<in> {Fin (- 10), Fin 0, Fin 10}" .
      then have "score (minimax b (Suc n) mx) = Fin 10 \<longleftrightarrow> (score (minimax b (Suc n) mx) \<in> {Fin 10, PosInfinity})"
        by auto
      also have "\<dots> \<longleftrightarrow> (\<forall>m \<in> set (getAvailableMoves b). ?f m = Fin 10)"
        using minfold_top [OF all, of ?init] False unfold by simp
      also have "\<dots> \<longleftrightarrow> (\<forall>m \<in> set (getAvailableMoves b). forcedWin n True (b[m := ''X'']))"
        using ih False by simp
      finally show ?thesis using playing False by simp
    qed
  qed
qed

lemma winsNow_forced: "winsNow b c \<Longrightarrow> forcedAfter b diff c"
  by (cases "difficultyDepths diff - 1") (simp_all add: winsNow_def forcedAfter_def)

text \<open>
  Claim C5, as the code has it. The search depth is 1 for easy, 3 for medium and 5 for
  hard. On a board of \<open>X\<close>, \<open>O\<close> and empty cells with no winner yet, where some cell is
  immediately winning for \<open>O\<close>, \<open>getBestMove\<close> returns at every difficulty the
  lowest-index empty cell to which the search gives the top score 10, and that is the
  lowest-index empty cell from which \<open>O\<close> wins within the rest of the lookahead whatever
  \<open>X\<close> replies. At easy (depth 1) that cell is the lowest-index immediately winning cell.
  An immediately winning cell, such as a blocking cell that also wins, is returned exactly
  when no empty cell of lower index forces a win within the lookahead.
\<close>

theorem getBestMove_top_score:
  assumes "wellFormed b" and "checkWinner b = None" and "winsNow b w"
  shows "difficultyDepths easy = 1 \<and> difficultyDepths medium = 3 \<and> difficultyDepths hard = 5 \<and>
    (\<forall>diff. \<exists>m. getBestMove b diff = int m \<and> m \<in> set (getAvailableMoves b) \<and>
       moveScore b diff m = Fin 10 \<and> forcedAfter b diff m \<and>
       (\<forall>m' \<in> set (getAvailableMoves b). m' < m \<longrightarrow> \<not> forcedAfter b diff m')) \<and>
    (\<exists>m. getBestMove b easy = int m \<and> winsNow b m \<and> (\<forall>m' < m. \<not> winsNow b m')) \<and>
    (\<forall>diff c. winsNow b c \<longrightarrow>
       (getBestMove b diff = int c \<longleftrightarrow>
        (\<forall>m' \<in> set (getAvailableMoves b). m' < c \<longrightarrow> \<not> forcedAfter b diff m')))"
proof -
  have conv: "moveScore b diff k = Fin 10 \<longleftrightarrow> forcedAfter b diff k" for diff k
    unfolding moveScore_def forcedAfter_def
    by (rule minimax_forced) (use assms(1) in \<open>simp add: wellFormed_update\<close>)
  have all: "\<exists>m. getBestMove b diff = int m \<and> m \<in> set (getAvailableMoves b) \<and>
       moveScore b diff m = Fin 10 \<and> forcedAfter b diff m \<and>
       (\<forall>m' \<in> set (getAvailableMoves b). m' < m \<longrightarrow> \<not> forcedAfter b diff m')" for diff
  proof -
    have "difficultyDepths diff = Suc (difficultyDepths diff - 1)" by (cases diff) simp_all
    with root_search [OF assms, of "difficultyDepths diff - 1"]
    have "\<exists>m. getBestMove b diff = int m \<and> m \<in> set (getAvailableMoves b) \<and>
       moveScore b diff m = Fin 10 \<and>
       (\<forall>m' \<in> set (getAvailableMoves b). m' < m \<longrightarrow> moveScore b diff m' \<noteq> Fin 10)"
      by (simp add: getBestMove_def moveScore_def)
    then show ?thesis by (simp add: conv)
  qed
  from all [of easy] obtain m where m: "getBestMove b easy = int m"
    and ma: "m \<in> set (getAvailableMoves b)" and ms: "forcedAfter b easy m"
    and first: "\<forall>m' \<in> set (getAvailableMoves b). m' < m \<longrightarrow> \<not> forcedAfter b easy m'"
    by blast
  have iff: "forcedAfter b easy k \<longleftrightarrow> checkWinner (b[k := ''O'']) = Some ''O''" for k
    by (simp add: forcedAfter_def)
  have "winsNow b m" using ma ms by (simp add: winsNow_def iff)
  moreover have "\<forall>m' < m. \<not> winsNow b m'"
    using first by (auto simp: winsNow_def iff)
  ultimately have easyCase:
    "\<exists>m. getBestMove b easy = int m \<and> winsNow b m \<and> (\<forall>m' < m. \<not> winsNow b m')"
    using m by blast
  have block: "getBestMove b diff = int c \<longleftrightarrow>
        (\<forall>m' \<in> set (getAvailableMoves b). m' < c \<longrightarrow> \<not> forcedAfter b diff m')"
    if c: "winsNow b c" for diff c
  proof -
    from all [of diff] obtain k where k: "getBestMove b diff = int k"
      and ka: "k \<in> set (getAvailableMoves b)" and kf: "forcedAfter b diff k"
      and least: "\<forall>m' \<in> set (getAvailableMoves b). m' < k \<longrightarrow> \<not> forcedAfter b diff m'"
      by blast
    from c have ca: "c \<in> set (getAvailableMoves b)" by (simp add: winsNow_def)
    from winsNow_forced [OF c] have cf: "forcedAfter b diff c" .
    from least ca cf have "k \<le> c" by (meson not_le_imp_less)
    show ?thesis
    proof
      assume "getBestMove b diff = int c"
      with k have "k = c" by simp
      with least show "\<forall>m' \<in> set (getAvailableMoves b). m' < c \<longrightarrow> \<not> forcedAfter b diff m'"
        by simp
    next
      assume "\<forall>m' \<in> set (getAvailableMoves b). m' < c \<longrightarrow> \<not> forcedAfter b diff m'"
      with ka kf have "\<not> k < c" by blast
      with \<open>k \<le> c\<close> have "k = c" by simp
      with k show "getBestMove b diff = int c" by simp
    qed
  qed
  from all easyCase block show ?thesis by simp
qed

theorem getBestMove_top_score_witness:
  "wellFormed forkBoard \<and> checkWinner forkBoard = None \<and> winsNow forkBoard 6 \<and>
   (\<exists>m. getBestMove forkBoard easy = int m \<and> winsNow forkBoard m) \<and>
   (\<exists>m. getBestMove forkBoard hard = int m \<and> forcedAfter forkBoard hard m) \<and>
   getBestMove forkBoard hard \<noteq> 6 \<and> forcedAfter forkBoard hard 2"
proof -
  have a: "wellFormed forkBoard" by (simp add: wellFormed_def forkBoard_def)
  have b: "checkWinner forkBoard = None" by code_simp
  have c: "winsNow forkBoard 6" by code_simp
  have d: "forcedAfter forkBoard hard 2" by code_simp
  have e: "2 \<in> set (getAvailableMoves forkBoard)" by code_simp
  note inst = getBestMove_top_score [OF a b c]
  from inst have "getBestMove forkBoard hard = int 6 \<longleftrightarrow>
     (\<forall>m' \<in> set (getAvailableMoves forkBoard). m' < 6 \<longrightarrow> \<not> forcedAfter forkBoard hard m')"
    using c by blast
  with d e have f: "getBestMove forkBoard hard \<noteq> 6" by auto
  from inst a b c d f show ?thesis by blast
qed

text \<open>
  At medium and hard the returned cell need not win at once: on this board \<open>X\<close> holds
  cells 0 and 1 of the top row, cell 6 wins immediately for \<open>O\<close>, and the search returns
  cell 2, which blocks the row, forces a win two plies later and wins nothing now.
\<close>

theorem getBestMove_fork_counterexample:
  "wellFormed forkBoard \<and> checkWinner forkBoard = None \<and> winsNow forkBoard 6 \<and>
   forkBoard ! 0 = ''X'' \<and> forkBoard ! 1 = ''X'' \<and> forkBoard ! 2 = [] \<and>
   getBestMove forkBoard medium = 2 \<and> getBestMove forkBoard hard = 2 \<and>
   checkWinner (forkBoard[2 := ''O'']) = None"
  by code_simp

section \<open>Waiting for a recommendation in progress\<close>

declare waitLoop.simps [simp del]

lemma waitLoop_step:
  assumes "j < 30"
  shows "waitLoop env (1000 * int j) =
     (case observe env (Suc j) of
        None \<Rightarrow> (None, Suc j)
      | Some cache \<Rightarrow>
          if cacheState cache = cache_completed \<and> expiresAt cache > clockAt env (Suc j)
          then (Some (recommendations cache), Suc j)
          else if cacheState cache = cache_failed then (None, Suc j)
          else waitLoop env (1000 * int (Suc j)))"
proof -
  have idx: "nat ((1000 * int j + 1000) div 1000) = Suc j" by simp
  have e: "1000 * int j + 1000 = 1000 * int (Suc j)" by simp
  have lt: "1000 * int j < 30000" using assms by simp
  show ?thesis
    by (subst waitLoop.simps, unfold Let_def idx, unfold e) (simp only: lt if_True)
qed

lemma waitLoop_stuck:
  "j \<le> 30 \<Longrightarrow>
   (\<forall>k. j < k \<and> k \<le> 30 \<longrightarrow> (\<exists>c. observe env k = Some c \<and> cacheState c = cache_processing)) \<Longrightarrow>
   waitLoop env (1000 * int j) = (None, 30)"
proof (induction "30 - j" arbitrary: j)
  case 0
  then have "j = 30" by simp
  then show ?case by (simp add: waitLoop.simps [of env 30000])
next
  case (Suc n)
  then have lt: "j < 30" by simp
  with Suc.prems(2) obtain c where c: "observe env (Suc j) = Some c"
    and proc: "cacheState c = cache_processing"
    by (metis Suc_leI lessI)
  have k: "nat ((1000 * int j + 1000) div 1000) = Suc j" by simp
  have next_elapsed: "1000 * int j + 1000 = 1000 * int (Suc j)" by simp
  have "waitLoop env (1000 * int (Suc j)) = (None, 30)"
  proof (rule Suc.hyps(1))
    show "n = 30 - Suc j" using Suc.hyps(2) by simp
    show "Suc j \<le> 30" using lt by simp
    show "\<forall>k. Suc j < k \<and> k \<le> 30 \<longrightarrow>
        (\<exists>c. observe env k = Some c \<and> cacheState c = cache_processing)"
      using Suc.prems(2) by auto
  qed
  then show ?case
    using c proc by (simp add: waitLoop_step [OF lt] del: of_nat_Suc)
qed


lemma waitLoop_done:
  "j < k \<Longrightarrow> k \<le> 30 \<Longrightarrow>
   (\<forall>i. j < i \<and> i < k \<longrightarrow> (\<exists>c. observe env i = Some c \<and> cacheState c = cache_processing)) \<Longrightarrow>
   observe env k = Some c \<Longrightarrow> cacheState c = cache_completed \<Longrightarrow>
   expiresAt c > clockAt env k \<Longrightarrow>
   waitLoop env (1000 * int j) = (Some (recommendations c), k)"
proof (induction "k - j" arbitrary: j)
  case 0
  then show ?case by simp
next
  case (Suc n)
  have lt: "j < 30" using Suc.prems(1,2) by simp
  show ?case
  proof (cases "Suc j = k")
    case True
    with Suc.prems(4,5,6) show ?thesis
      by (simp add: waitLoop_step [OF lt] del: of_nat_Suc)
  next
    case False
    with Suc.prems(1) have jk: "Suc j < k" by simp
    with Suc.prems(3) obtain c' where c': "observe env (Suc j) = Some c'"
      and proc: "cacheState c' = cache_processing"
      by (metis lessI)
    have "waitLoop env (1000 * int (Suc j)) = (Some (recommendations c), k)"
    proof (rule Suc.hyps(1))
      show "n = k - Suc j" using Suc.hyps(2) by simp
      show "Suc j < k" by (rule jk)
      show "k \<le> 30" by (rule Suc.prems(2))
      show "\<forall>i. Suc j < i \<and> i < k \<longrightarrow>
          (\<exists>c. observe env i = Some c \<and> cacheState c = cache_processing)"
        using Suc.prems(3) by auto
    qed (rule Suc.prems)+
    then show ?thesis
      using c' proc by (simp add: waitLoop_step [OF lt] del: of_nat_Suc)
  qed
qed

lemma startGeneration_settles:
  "\<exists>c. snd (startGeneration env docs caches uid) uid = Some c \<and> cacheState c \<noteq> cache_processing"
  by (auto simp: startGeneration_def updateCache_def Let_def split: sum.splits option.splits)

lemma startGeneration_no_games:
  "filter (\<lambda>g. user g = uid \<and> status g = completed) docs = [] \<Longrightarrow>
   fst (startGeneration env docs caches uid) = getDefaultRecommendations (genEnd env)"
  by (simp add: startGeneration_def Let_def)

text \<open>
  Claim C8, as the code has it. When the cache row of the user is processing,
  \<open>generateRecommendations\<close> polls it, once per poll interval of one second, 30 times at
  most. If a poll within the window finds the row completed with an expiry still ahead,
  the earlier polls having found it processing, the recommendations of the row are
  returned. If all 30 polls find it processing, \<open>waitForProcessing\<close> returns \<open>null\<close> and
  \<open>generateRecommendations\<close> falls through to a new generation: its result and its
  effect on the cache are those of the generation started on the row the last poll saw, so
  the row does not stay processing, and a user with no completed game gets the default
  recommendations.
\<close>

theorem generateRecommendations_processing:
  assumes "caches userId = Some c0" and "cacheState c0 = cache_processing"
  shows "(\<forall>k c. 1 \<le> k \<and> k \<le> 30 \<and> stillProcessing env (k - 1) \<and> observe env k = Some c \<and>
            cacheState c = cache_completed \<and> expiresAt c > clockAt env k \<longrightarrow>
            waitForProcessing env = (Some (recommendations c), k) \<and>
            fst (generateRecommendations env gameDocs caches userId) = recommendations c) \<and>
         (stillProcessing env 30 \<longrightarrow>
            waitForProcessing env = (None, 30) \<and>
            generateRecommendations env gameDocs caches userId =
              startGeneration env gameDocs (caches(userId := observe env 30)) userId \<and>
            (\<exists>c. snd (generateRecommendations env gameDocs caches userId) userId = Some c \<and>
                 cacheState c \<noteq> cache_processing) \<and>
            (filter (\<lambda>g. user g = userId \<and> status g = completed) gameDocs = [] \<longrightarrow>
               fst (generateRecommendations env gameDocs caches userId) =
                 getDefaultRecommendations (genEnd env)))"
proof (intro conjI allI impI)
  fix k c
  assume h: "1 \<le> k \<and> k \<le> 30 \<and> stillProcessing env (k - 1) \<and> observe env k = Some c \<and>
            cacheState c = cache_completed \<and> expiresAt c > clockAt env k"
  then have "\<forall>i. 0 < i \<and> i < k \<longrightarrow> (\<exists>c. observe env i = Some c \<and> cacheState c = cache_processing)"
    by (auto simp: stillProcessing_def)
  with h have "waitLoop env (1000 * int 0) = (Some (recommendations c), k)"
    by (intro waitLoop_done) auto
  then show w: "waitForProcessing env = (Some (recommendations c), k)"
    by (simp add: waitForProcessing_def)
  show "fst (generateRecommendations env gameDocs caches userId) = recommendations c"
    using assms w by (simp add: generateRecommendations_def)
next
  assume sp: "stillProcessing env 30"
  then have "waitLoop env (1000 * int 0) = (None, 30)"
    by (intro waitLoop_stuck) (auto simp: stillProcessing_def)
  then show w: "waitForProcessing env = (None, 30)"
    by (simp add: waitForProcessing_def)
  show g: "generateRecommendations env gameDocs caches userId =
      startGeneration env gameDocs (caches(userId := observe env 30)) userId"
    using assms w by (simp add: generateRecommendations_def)
  show "\<exists>c. snd (generateRecommendations env gameDocs caches userId) userId = Some c \<and>
                 cacheState c \<noteq> cache_processing"
    unfolding g by (rule startGeneration_settles)
  show "fst (generateRecommendations env gameDocs caches userId) =
      getDefaultRecommendations (genEnd env)"
    if "filter (\<lambda>g. user g = userId \<and> status g = completed) gameDocs = []"
    unfolding g using that by (rule startGeneration_no_games)
qed

lemma stuckEnv_stillProcessing: "stillProcessing stuckEnv 30"
  by (simp add: stillProcessing_def stuckEnv_def stuckRow_def)

lemma doneEnv_stillProcessing: "stillProcessing doneEnv 2"
  by (simp add: stillProcessing_def doneEnv_def stuckRow_def)

theorem generateRecommendations_processing_witness:
  "[''u1'' \<mapsto> stuckRow] ''u1'' = Some stuckRow \<and> cacheState stuckRow = cache_processing \<and>
   stillProcessing stuckEnv 30 \<and>
   waitForProcessing stuckEnv = (None, 30) \<and>
   generateRecommendations stuckEnv [] [''u1'' \<mapsto> stuckRow] ''u1'' =
     startGeneration stuckEnv [] ([''u1'' \<mapsto> stuckRow](''u1'' := observe stuckEnv 30)) ''u1'' \<and>
   (1::nat) \<le> 3 \<and> (3::nat) \<le> 30 \<and> stillProcessing doneEnv (3 - 1) \<and>
   observe doneEnv 3 = Some doneRow \<and> cacheState doneRow = cache_completed \<and>
   expiresAt doneRow > clockAt doneEnv 3 \<and>
   fst (generateRecommendations doneEnv [] [''u1'' \<mapsto> stuckRow] ''u1'') = recommendations doneRow"
proof -
  have a: "[''u1'' \<mapsto> stuckRow] ''u1'' = Some stuckRow" by simp
  have b: "cacheState stuckRow = cache_processing" by (simp add: stuckRow_def)
  note c = stuckEnv_stillProcessing
  have d: "stillProcessing doneEnv (3 - 1)" using doneEnv_stillProcessing by simp
  have e: "observe doneEnv 3 = Some doneRow" by (simp add: doneEnv_def)
  have f: "cacheState doneRow = cache_completed" by (simp add: doneRow_def)
  have g: "expiresAt doneRow > clockAt doneEnv 3" by (simp add: doneRow_def doneEnv_def)
  have h: "(1::nat) \<le> 3" "(3::nat) \<le> 30" by simp_all
  from generateRecommendations_processing
    [where caches = "[''u1'' \<mapsto> stuckRow]" and userId = "''u1''" and env = stuckEnv
       and gameDocs = "[]", OF a b] c
  have stuck: "waitForProcessing stuckEnv = (None, 30) \<and>
      generateRecommendations stuckEnv [] [''u1'' \<mapsto> stuckRow] ''u1'' =
        startGeneration stuckEnv [] ([''u1'' \<mapsto> stuckRow](''u1'' := observe stuckEnv 30)) ''u1''"
    by blast
  from generateRecommendations_processing
    [where caches = "[''u1'' \<mapsto> stuckRow]" and userId = "''u1''" and env = doneEnv
       and gameDocs = "[]", OF a b] d e f g h
  have "fst (generateRecommendations doneEnv [] [''u1'' \<mapsto> stuckRow] ''u1'') =
      recommendations doneRow"
    by blast
  with a b c d e f g h stuck show ?thesis by blast
qed

text \<open>
  The claim as written says that nothing is returned and nothing regenerated after 30
  seconds of processing. On a row that stays processing, for a user without games, the
  call returns the default recommendation and stores it as a completed row.
\<close>

theorem generateRecommendations_regenerates_counterexample:
  "[''u1'' \<mapsto> stuckRow] ''u1'' = Some stuckRow \<and> cacheState stuckRow = cache_processing \<and>
   stillProcessing stuckEnv 30 \<and>
   fst (generateRecommendations stuckEnv [] [''u1'' \<mapsto> stuckRow] ''u1'') =
     getDefaultRecommendations 30001 \<and>
   fst (generateRecommendations stuckEnv [] [''u1'' \<mapsto> stuckRow] ''u1'') \<noteq> [] \<and>
   map_option cacheState
     (snd (generateRecommendations stuckEnv [] [''u1'' \<mapsto> stuckRow] ''u1'') ''u1'') =
     Some cache_completed \<and>
   map_option recommendations
     (snd (generateRecommendations stuckEnv [] [''u1'' \<mapsto> stuckRow] ''u1'') ''u1'') =
     Some (getDefaultRecommendations 30001)"
proof -
  have "waitLoop stuckEnv (1000 * int 0) = (None, 30)"
    by (rule waitLoop_stuck) (simp_all add: stuckEnv_def stuckRow_def)
  then have w: "waitForProcessing stuckEnv = (None, 30)"
    by (simp add: waitForProcessing_def)
  have g: "generateRecommendations stuckEnv [] [''u1'' \<mapsto> stuckRow] ''u1'' =
      startGeneration stuckEnv [] [''u1'' \<mapsto> stuckRow] ''u1''"
    using w by (simp add: generateRecommendations_def stuckRow_def stuckEnv_def)
  have s: "startGeneration stuckEnv [] [''u1'' \<mapsto> stuckRow] ''u1'' =
      (getDefaultRecommendations 30001,
       [''u1'' \<mapsto> stuckRow \<lparr> recommendations := getDefaultRecommendations 30001,
                                cacheState := cache_completed,
                                expiresAt := 30001 + 24 * 60 * 60 * 1000 \<rparr>])"
    by (simp add: startGeneration_def updateCache_def stuckEnv_def Let_def)
  show ?thesis
    unfolding g s using stuckEnv_stillProcessing
    by (simp add: stuckRow_def getDefaultRecommendations_def)
qed

section \<open>Timeout forfeit\<close>

lemma gameStore_emit [simp]: "gameStore (emit t e s) = gameStore s"
  by (simp add: emit_def)

lemma gameStore_clearGameTimer [simp]: "gameStore (clearGameTimer gid s) = gameStore s"
  by (simp add: clearGameTimer_def)

lemma gameStore_scheduleTimer [simp]: "gameStore (scheduleTimer gid d p s) = gameStore s"
  by (simp add: scheduleTimer_def)

lemma gameStore_markExpired [simp]: "gameStore (markExpired ids n now s) = gameStore s"
  by (simp add: markExpired_def)

lemma gameStore_createMove [simp]:
  "gameStore (createMove gid n pos ai p before after expires s) = gameStore s"
  by (simp add: createMove_def)

lemma finishGame_shape:
  "\<exists>us recs payload.
     finishGame gid g line moveCount now s =
       emit (ToRoom (''user_'' @ user g)) (GameEnd payload)
         (emit (ToRoom gid) (GameEnd payload) (s \<lparr> userStore := us, achievementStore := recs \<rparr>)) \<and>
     endWinningLine payload = line \<and> endResult payload = outcome g \<and> endGameId payload = gid \<and>
     endMoves payload = moveCount \<and> endDuration payload = duration g"
  unfolding finishGame_def Let_def split_beta
  by (intro exI conjI, rule refl) simp_all

lemma gameStore_finishGame [simp]:
  "gameStore (finishGame gid g line moveCount now s) = gameStore s"
  using finishGame_shape [of gid g line moveCount now s] by auto

lemma moveStore_finishGame [simp]:
  "moveStore (finishGame gid g line moveCount now s) = moveStore s"
  using finishGame_shape [of gid g line moveCount now s] by (auto simp: emit_def)

lemma gameTimers_finishGame [simp]:
  "gameTimers (finishGame gid g line moveCount now s) = gameTimers s"
  using finishGame_shape [of gid g line moveCount now s] by (auto simp: emit_def)

lemma emitted_finishGame:
  "\<exists>payload. emitted (finishGame gid g line moveCount now s) =
       emitted s @ [(ToRoom gid, GameEnd payload), (ToRoom (''user_'' @ user g), GameEnd payload)] \<and>
     endWinningLine payload = line \<and> endResult payload = outcome g \<and> endGameId payload = gid \<and>
     endMoves payload = moveCount \<and> endDuration payload = duration g"
  using finishGame_shape [of gid g line moveCount now s] by (auto simp: emit_def)

lemma forfeit_fields:
  "outcome (forfeit p now g) = Some (if p = PlayerX then lose else win) \<and>
   status (forfeit p now g) = completed \<and>
   timeoutLoser (forfeit p now g) = Some p \<and>
   timerLastStartedAt (forfeit p now g) = None \<and>
   winningLine (forfeit p now g) = winningLine g \<and>
   playerXTimeRemaining (forfeit p now g) = (if p = PlayerX then 0 else playerXTimeRemaining g) \<and>
   playerOTimeRemaining (forfeit p now g) = (if p = PlayerX then playerOTimeRemaining g else 0)"
  by (simp add: forfeit_def touchDuration_def Let_def)

lemma handleTimeout_noop:
  "gameStore s gid = None \<or> (\<exists>g. gameStore s gid = Some g \<and> status g \<noteq> in_progress) \<Longrightarrow>
   handleTimeout gid p now s = clearGameTimer gid s"
  by (auto simp: handleTimeout_def Let_def)

lemma handleTimeout_in_progress:
  assumes "gameStore s gid = Some g" and "status g = in_progress"
  shows "gameStore (handleTimeout gid p now s) = (gameStore s)(gid \<mapsto> forfeit p now g) \<and>
         moveStore (handleTimeout gid p now s) = moveStore s \<and>
         gameTimers (handleTimeout gid p now s) = (gameTimers s)(gid := None) \<and>
         (\<exists>payload. emitted (handleTimeout gid p now s) =
            emitted s @
              [(ToRoom gid, TimerUpdate gid (playerXTimeRemaining (forfeit p now g))
                              (playerOTimeRemaining (forfeit p now g)) (Some p)),
               (ToRoom gid, GameTimeout gid (otherPlayer p) p),
               (ToRoom gid, GameEnd payload),
               (ToRoom (''user_'' @ user g), GameEnd payload)] \<and>
            endWinningLine payload = None \<and> endResult payload = outcome (forfeit p now g))"
proof -
  let ?g = "forfeit p now g"
  let ?s3 = "emit (ToRoom gid) (GameTimeout gid (otherPlayer p) p)
      (emit (ToRoom gid) (TimerUpdate gid (playerXTimeRemaining ?g) (playerOTimeRemaining ?g) (Some p))
         ((clearGameTimer gid s) \<lparr> gameStore := (gameStore s)(gid \<mapsto> ?g) \<rparr>))"
  have h: "handleTimeout gid p now s =
      finishGame gid ?g None (int (length (movesOfGame ?s3 gid))) now ?s3"
    using assms by (simp add: handleTimeout_def Let_def)
  have u: "user ?g = user g" by (simp add: forfeit_def touchDuration_def Let_def)
  from emitted_finishGame [of gid ?g None "int (length (movesOfGame ?s3 gid))" now ?s3]
  obtain payload where
    e: "emitted (finishGame gid ?g None (int (length (movesOfGame ?s3 gid))) now ?s3) =
          emitted ?s3 @ [(ToRoom gid, GameEnd payload), (ToRoom (''user_'' @ user ?g), GameEnd payload)]"
    and w: "endWinningLine payload = None" and r: "endResult payload = outcome ?g"
    by blast
  have "emitted (handleTimeout gid p now s) =
            emitted s @
              [(ToRoom gid, TimerUpdate gid (playerXTimeRemaining ?g)
                              (playerOTimeRemaining ?g) (Some p)),
               (ToRoom gid, GameTimeout gid (otherPlayer p) p),
               (ToRoom gid, GameEnd payload),
               (ToRoom (''user_'' @ user g), GameEnd payload)]"
    unfolding h e u by (simp add: emit_def clearGameTimer_def)
  with w r have "\<exists>payload. emitted (handleTimeout gid p now s) =
            emitted s @
              [(ToRoom gid, TimerUpdate gid (playerXTimeRemaining ?g)
                              (playerOTimeRemaining ?g) (Some p)),
               (ToRoom gid, GameTimeout gid (otherPlayer p) p),
               (ToRoom gid, GameEnd payload),
               (ToRoom (''user_'' @ user g), GameEnd payload)] \<and>
            endWinningLine payload = None \<and> endResult payload = outcome ?g"
    by blast
  moreover have "gameStore (handleTimeout gid p now s) = (gameStore s)(gid \<mapsto> ?g)"
    unfolding h by simp
  moreover have "moveStore (handleTimeout gid p now s) = moveStore s"
    unfolding h by (simp add: emit_def clearGameTimer_def)
  moreover have "gameTimers (handleTimeout gid p now s) = (gameTimers s)(gid := None)"
    unfolding h by (simp add: emit_def clearGameTimer_def)
  ultimately show ?thesis by blast
qed

text \<open>
  Claim C4. The timeout handler first clears the scheduled timeout of the game. If the
  game is missing or no longer in progress that is all it does: the game, move, user and
  achievement collections are unchanged and nothing is emitted. Otherwise it stores the
  game with the remaining time of the timed-out player at 0, \<open>timeoutLoser\<close> that player,
  the outcome \<open>lose\<close> when \<open>X\<close> timed out and \<open>win\<close> otherwise, the status completed
  and \<open>timerLastStartedAt\<close> null, and it emits, in this order, \<open>timer-update\<close>,
  \<open>game-timeout\<close> and \<open>game-end\<close> (to the room of the game and to the room of the
  owner), the last with the outcome as result and a null winning line.
\<close>

theorem handleTimeout_forfeit:
  "(gameStore s gid = None \<or> (\<exists>g. gameStore s gid = Some g \<and> status g \<noteq> in_progress) \<longrightarrow>
      handleTimeout gid p now s = clearGameTimer gid s \<and>
      gameStore (handleTimeout gid p now s) = gameStore s \<and>
      moveStore (handleTimeout gid p now s) = moveStore s \<and>
      userStore (handleTimeout gid p now s) = userStore s \<and>
      achievementStore (handleTimeout gid p now s) = achievementStore s \<and>
      emitted (handleTimeout gid p now s) = emitted s) \<and>
   (\<forall>g. gameStore s gid = Some g \<and> status g = in_progress \<longrightarrow>
      (\<exists>g' payload.
         gameStore (handleTimeout gid p now s) = (gameStore s)(gid \<mapsto> g') \<and>
         playerXTimeRemaining g' = (if p = PlayerX then 0 else playerXTimeRemaining g) \<and>
         playerOTimeRemaining g' = (if p = PlayerO then 0 else playerOTimeRemaining g) \<and>
         timeoutLoser g' = Some p \<and>
         outcome g' = Some (if p = PlayerX then lose else win) \<and>
         status g' = completed \<and>
         timerLastStartedAt g' = None \<and>
         emitted (handleTimeout gid p now s) =
           emitted s @
             [(ToRoom gid, TimerUpdate gid (playerXTimeRemaining g') (playerOTimeRemaining g') (Some p)),
              (ToRoom gid, GameTimeout gid (otherPlayer p) p),
              (ToRoom gid, GameEnd payload),
              (ToRoom (''user_'' @ user g), GameEnd payload)] \<and>
         endWinningLine payload = None \<and> endResult payload = outcome g'))"
proof (intro conjI allI impI)
  assume a: "gameStore s gid = None \<or> (\<exists>g. gameStore s gid = Some g \<and> status g \<noteq> in_progress)"
  then show n: "handleTimeout gid p now s = clearGameTimer gid s"
    by (rule handleTimeout_noop)
  show "gameStore (handleTimeout gid p now s) = gameStore s"
    and "moveStore (handleTimeout gid p now s) = moveStore s"
    and "userStore (handleTimeout gid p now s) = userStore s"
    and "achievementStore (handleTimeout gid p now s) = achievementStore s"
    and "emitted (handleTimeout gid p now s) = emitted s"
    unfolding n by (simp_all add: clearGameTimer_def)
next
  fix g
  assume "gameStore s gid = Some g \<and> status g = in_progress"
  then have g: "gameStore s gid = Some g" and st: "status g = in_progress" by simp_all
  from handleTimeout_in_progress [OF g st, of p now] forfeit_fields [of p now g]
  show "\<exists>g' payload.
         gameStore (handleTimeout gid p now s) = (gameStore s)(gid \<mapsto> g') \<and>
         playerXTimeRemaining g' = (if p = PlayerX then 0 else playerXTimeRemaining g) \<and>
         playerOTimeRemaining g' = (if p = PlayerO then 0 else playerOTimeRemaining g) \<and>
         timeoutLoser g' = Some p \<and>
         outcome g' = Some (if p = PlayerX then lose else win) \<and>
         status g' = completed \<and>
         timerLastStartedAt g' = None \<and>
         emitted (handleTimeout gid p now s) =
           emitted s @
             [(ToRoom gid, TimerUpdate gid (playerXTimeRemaining g') (playerOTimeRemaining g') (Some p)),
              (ToRoom gid, GameTimeout gid (otherPlayer p) p),
              (ToRoom gid, GameEnd payload),
              (ToRoom (''user_'' @ user g), GameEnd payload)] \<and>
         endWinningLine payload = None \<and> endResult payload = outcome g'"
    by (cases p) auto
qed

theorem handleTimeout_forfeit_witness:
  "gameStore timedStart ''g1'' = Some timedGame \<and> status timedGame = in_progress \<and>
   (\<exists>g'. gameStore (handleTimeout ''g1'' PlayerX 61000 timedStart) ''g1'' = Some g' \<and>
         status g' = completed \<and> outcome g' = Some lose \<and> playerXTimeRemaining g' = 0 \<and>
         timeoutLoser g' = Some PlayerX) \<and>
   (\<exists>g. gameStore endedStart ''g1'' = Some g \<and> status g \<noteq> in_progress) \<and>
   gameStore (handleTimeout ''g1'' PlayerX 61000 endedStart) = gameStore endedStart \<and>
   emitted (handleTimeout ''g1'' PlayerX 61000 endedStart) = emitted endedStart"
proof -
  have a: "gameStore timedStart ''g1'' = Some timedGame"
    by (simp add: timedStart_def sampleStart_def)
  have b: "status timedGame = in_progress"
    by (simp add: timedGame_def localGame_def)
  have c: "\<exists>g. gameStore endedStart ''g1'' = Some g \<and> status g \<noteq> in_progress"
    by (simp add: endedStart_def timedStart_def sampleStart_def)
  from handleTimeout_forfeit [of timedStart "''g1''" PlayerX 61000] a b
  obtain g' where "gameStore (handleTimeout ''g1'' PlayerX 61000 timedStart) =
      (gameStore timedStart)(''g1'' \<mapsto> g')"
    and "status g' = completed" and "outcome g' = Some (if PlayerX = PlayerX then lose else win)"
    and "playerXTimeRemaining g' = (if PlayerX = PlayerX then 0 else playerXTimeRemaining timedGame)"
    and "timeoutLoser g' = Some PlayerX"
    by blast
  then have d: "\<exists>g'. gameStore (handleTimeout ''g1'' PlayerX 61000 timedStart) ''g1'' = Some g' \<and>
         status g' = completed \<and> outcome g' = Some lose \<and> playerXTimeRemaining g' = 0 \<and>
         timeoutLoser g' = Some PlayerX"
    by simp
  from handleTimeout_forfeit [of endedStart "''g1''" PlayerX 61000] c
  have e: "gameStore (handleTimeout ''g1'' PlayerX 61000 endedStart) = gameStore endedStart"
    and f: "emitted (handleTimeout ''g1'' PlayerX 61000 endedStart) = emitted endedStart"
    by blast+
  from a b c d e f show ?thesis by blast
qed

section \<open>Invariant of the stored games\<close>

lemma inv_touchDuration [simp]: "gameInvariant (touchDuration now g) = gameInvariant g"
  by (simp add: gameInvariant_def touchDuration_def Let_def)

lemma inv_forfeit: "gameInvariant g \<Longrightarrow> gameInvariant (forfeit p now g)"
  using forfeit_fields [of p now g] by (simp add: gameInvariant_def)

lemma findLine_mem: "findLine ls b = Some l \<Longrightarrow> l \<in> set ls"
  by (induction ls) (auto split: if_splits)

lemma getWinningLine_mem: "getWinningLine b = Some l \<Longrightarrow> l \<in> set winningLines"
  unfolding getWinningLine_def by (rule findLine_mem)

lemma inv_decideGame: "gameInvariant g \<Longrightarrow> gameInvariant (decideGame b f g)"
  by (auto simp: gameInvariant_def decideGame_def Let_def getWinningLine_mem
      split: option.splits)

lemma inv_deductTimer [simp]:
  "gameInvariant (fst (deductTimerOnMove g p now)) = gameInvariant g"
  by (simp add: gameInvariant_def deductTimerOnMove_def Let_def)

lemma storeInvariant_update:
  "storeInvariant s \<Longrightarrow> gameInvariant g \<Longrightarrow> gameStore s' = (gameStore s)(gid \<mapsto> g) \<Longrightarrow>
   storeInvariant s'"
  by (simp add: storeInvariant_def)

lemma storeInvariant_same:
  "storeInvariant s \<Longrightarrow> gameStore s' = gameStore s \<Longrightarrow> storeInvariant s'"
  by (simp add: storeInvariant_def)

lemma handleTimeout_inv:
  assumes "storeInvariant s"
  shows "storeInvariant (handleTimeout gid p now s)"
proof (cases "gameStore s gid")
  case None
  then have "handleTimeout gid p now s = clearGameTimer gid s"
    by (simp add: handleTimeout_noop)
  with assms show ?thesis by (simp add: storeInvariant_same)
next
  case (Some g)
  show ?thesis
  proof (cases "status g = in_progress")
    case True
    from assms Some have "gameInvariant g" by (simp add: storeInvariant_def)
    then have "gameInvariant (forfeit p now g)" by (rule inv_forfeit)
    with assms handleTimeout_in_progress [OF Some True, of p now] show ?thesis
      by (blast intro: storeInvariant_update)
  next
    case False
    with Some have "handleTimeout gid p now s = clearGameTimer gid s"
      by (simp add: handleTimeout_noop)
    with assms show ?thesis by (simp add: storeInvariant_same)
  qed
qed

text \<open>The player's move: what it stores, and the document it hands to the AI turn.\<close>

lemma commitMove_store:
  "\<exists>g'. gameStore (fst (commitMove req now s g ms board cp)) = (gameStore s)(reqGameId req \<mapsto> g') \<and>
        (gameInvariant g \<longrightarrow> gameInvariant g') \<and>
        (\<forall>cl. snd (commitMove req now s g ms board cp) = Some cl \<longrightarrow>
           aiDoc cl = \<lparr> held = g', modifiedPaths = {} \<rparr> \<and> status g' \<noteq> completed)"
  by (auto simp: commitMove_def Let_def split_beta inv_decideGame split: option.splits)

lemma validateMove_game:
  "validateMove req now s = Inr (g, ms, board, p) \<Longrightarrow>
   \<exists>game0. gameStore s (reqGameId req) = Some game0 \<and> g = touchDuration now game0"
proof (cases "gameStore s (reqGameId req)")
  case None
  assume "validateMove req now s = Inr (g, ms, board, p)"
  with None show ?thesis by (simp add: validateMove_def)
next
  case (Some game0)
  assume "validateMove req now s = Inr (g, ms, board, p)"
  with Some have "g = touchDuration now game0"
    by (simp add: validateMove_def Let_def split: if_splits option.splits)
  with Some show ?thesis by simp
qed

lemma makeMove_inv:
  assumes "storeInvariant s"
  shows "storeInvariant (fst (makeMove req now s)) \<and>
         (\<forall>cl. snd (makeMove req now s) = Some cl \<longrightarrow> closureInvariant cl)"
proof (cases "validateMove req now s")
  case (Inl message)
  then have "makeMove req now s = (emit ToSocket (ErrorEvent message) s, None)"
    by (simp add: makeMove_def)
  with assms show ?thesis by (simp add: storeInvariant_same)
next
  case (Inr ctx)
  obtain g ms board p where ctx: "ctx = (g, ms, board, p)" by (cases ctx)
  from Inr ctx have m: "makeMove req now s = commitMove req now s g ms board p"
    by (simp add: makeMove_def)
  from validateMove_game Inr ctx obtain game0
    where g0: "gameStore s (reqGameId req) = Some game0" and g: "g = touchDuration now game0"
    by blast
  from assms g0 g have "gameInvariant g"
    by (simp add: storeInvariant_def)
  with commitMove_store [of req now s g ms board p]
  obtain g' where st: "gameStore (fst (makeMove req now s)) = (gameStore s)(reqGameId req \<mapsto> g')"
    and inv: "gameInvariant g'"
    and cl: "\<forall>cl. snd (makeMove req now s) = Some cl \<longrightarrow>
           aiDoc cl = \<lparr> held = g', modifiedPaths = {} \<rparr> \<and> status g' \<noteq> completed"
    unfolding m by blast
  have "closureInvariant c" if "snd (makeMove req now s) = Some c" for c
  proof -
    from cl that have d: "aiDoc c = \<lparr> held = g', modifiedPaths = {} \<rparr>"
      and open_game: "status g' \<noteq> completed" by simp_all
    from inv open_game have "outcome g' = None" by (simp add: gameInvariant_def)
    with d open_game show ?thesis by (simp add: closureInvariant_def)
  qed
  moreover from assms inv st have "storeInvariant (fst (makeMove req now s))"
    by (rule storeInvariant_update)
  ultimately show ?thesis by blast
qed

text \<open>
  A save of modified paths keeps the invariant when outcome and status are modified
  together, to an outcome and \<open>completed\<close>, and a modified winning line is a line.
\<close>

lemma writePaths_inv:
  assumes "gameInvariant stored"
    and "OutcomePath \<in> paths \<longleftrightarrow> StatusPath \<in> paths"
    and "StatusPath \<in> paths \<Longrightarrow> status doc = completed \<and> outcome doc \<noteq> None"
    and "WinningLinePath \<in> paths \<Longrightarrow> \<exists>line. winningLine doc = Some line \<and> line \<in> set winningLines"
  shows "gameInvariant (writePaths paths doc stored)"
proof (cases "StatusPath \<in> paths")
  case True
  with assms(2,3) have "OutcomePath \<in> paths" "status doc = completed" "outcome doc \<noteq> None"
    by simp_all
  with True assms(1,4) show ?thesis
    by (auto simp: gameInvariant_def writePaths_def split: option.splits)
next
  case False
  with assms(2) have "OutcomePath \<notin> paths" by simp
  with False assms(1,4) show ?thesis
    by (auto simp: gameInvariant_def writePaths_def split: option.splits)
qed

lemma saveDoc_inv:
  assumes "storeInvariant s"
    and "OutcomePath \<in> modifiedPaths d \<longleftrightarrow> StatusPath \<in> modifiedPaths d"
    and "StatusPath \<in> modifiedPaths d \<Longrightarrow> status (held d) = completed \<and> outcome (held d) \<noteq> None"
    and "WinningLinePath \<in> modifiedPaths d \<Longrightarrow>
           \<exists>line. winningLine (held d) = Some line \<and> line \<in> set winningLines"
  shows "storeInvariant (saveDoc gid d s)"
proof (cases "gameStore s gid")
  case None
  then have "saveDoc gid d s = s" by (simp add: saveDoc_def)
  with assms(1) show ?thesis by simp
next
  case (Some stored)
  with assms(1) have "gameInvariant stored" by (simp add: storeInvariant_def)
  then have "gameInvariant (writePaths (modifiedPaths d) (held d) stored)"
    using assms(2,3,4) by (rule writePaths_inv)
  moreover have "gameStore (saveDoc gid d s) =
      (gameStore s)(gid \<mapsto> writePaths (modifiedPaths d) (held d) stored)"
    using Some by (simp add: saveDoc_def)
  ultimately show ?thesis using assms(1) by (blast intro: storeInvariant_update)
qed

text \<open>The first part of the AI turn touches the clock of \<open>O\<close> only.\<close>

lemma chargeAiDelay_closure:
  assumes "closureInvariant cl"
  shows "closureInvariant (cl \<lparr> aiDoc := chargeAiDelay (aiDoc cl) delay \<rparr>)"
  using assms
  by (auto simp: closureInvariant_def chargeAiDelay_def setPlayerOTimeRemaining_def assign_def)

lemma aiTurnStart_inv:
  assumes s: "storeInvariant s" and c: "closureInvariant cl"
  shows "storeInvariant (fst (aiTurnStart cl r now s)) \<and>
         (\<forall>cl'. snd (aiTurnStart cl r now s) = Some cl' \<longrightarrow> closureInvariant cl')"
proof -
  define d1 where "d1 = chargeAiDelay (aiDoc cl) (aiDelaySeconds (held (aiDoc cl)) r)"
  from chargeAiDelay_closure [OF c, of "aiDelaySeconds (held (aiDoc cl)) r"]
  have c1: "closureInvariant (cl \<lparr> aiDoc := d1 \<rparr>)" by (simp add: d1_def)
  then have paths: "modifiedPaths d1 \<subseteq> {OTimePath}" by (simp add: closureInvariant_def)
  show ?thesis
  proof (cases "timerEnabled (held d1) \<and> playerOTimeRemaining (held d1) \<le> 0")
    case True
    then have run: "aiTurnStart cl r now s =
        (handleTimeout (aiGameId cl) PlayerO now (saveDoc (aiGameId cl) d1 s), None)"
      by (simp add: aiTurnStart_def Let_def d1_def)
    have "storeInvariant (saveDoc (aiGameId cl) d1 s)"
      using s paths by (intro saveDoc_inv) auto
    then have "storeInvariant (handleTimeout (aiGameId cl) PlayerO now (saveDoc (aiGameId cl) d1 s))"
      by (rule handleTimeout_inv)
    with run show ?thesis by simp
  next
    case False
    then have "aiTurnStart cl r now s = (s, Some (cl \<lparr> aiDoc := d1 \<rparr>))"
      by (auto simp: aiTurnStart_def Let_def d1_def)
    with s c1 show ?thesis by simp
  qed
qed

text \<open>The assignments of the second part, on a document as the first part leaves it.\<close>

lemma decideDoc_paths:
  assumes "modifiedPaths d \<subseteq> {OTimePath}" and "status (held d) \<noteq> completed"
    and "outcome (held d) = None"
  shows "(OutcomePath \<in> modifiedPaths (decideDoc b f d) \<longleftrightarrow>
          StatusPath \<in> modifiedPaths (decideDoc b f d)) \<and>
         (StatusPath \<in> modifiedPaths (decideDoc b f d) \<longrightarrow>
            status (held (decideDoc b f d)) = completed \<and>
            outcome (held (decideDoc b f d)) \<noteq> None) \<and>
         (WinningLinePath \<in> modifiedPaths (decideDoc b f d) \<longrightarrow>
            (\<exists>line. winningLine (held (decideDoc b f d)) = Some line \<and> line \<in> set winningLines))"
  using assms
  by (auto simp: decideDoc_def Let_def setOutcome_def setStatus_def setWinningLine_def
      setTimerLastStartedAt_def assign_def getWinningLine_mem
      split: option.splits if_splits)

lemma later_assignments:
  "OutcomePath \<in> modifiedPaths (setTimerLastStartedAt v d) \<longleftrightarrow> OutcomePath \<in> modifiedPaths d"
  "StatusPath \<in> modifiedPaths (setTimerLastStartedAt v d) \<longleftrightarrow> StatusPath \<in> modifiedPaths d"
  "WinningLinePath \<in> modifiedPaths (setTimerLastStartedAt v d) \<longleftrightarrow> WinningLinePath \<in> modifiedPaths d"
  "status (held (setTimerLastStartedAt v d)) = status (held d)"
  "outcome (held (setTimerLastStartedAt v d)) = outcome (held d)"
  "winningLine (held (setTimerLastStartedAt v d)) = winningLine (held d)"
  "OutcomePath \<in> modifiedPaths (setDuration n d) \<longleftrightarrow> OutcomePath \<in> modifiedPaths d"
  "StatusPath \<in> modifiedPaths (setDuration n d) \<longleftrightarrow> StatusPath \<in> modifiedPaths d"
  "WinningLinePath \<in> modifiedPaths (setDuration n d) \<longleftrightarrow> WinningLinePath \<in> modifiedPaths d"
  "status (held (setDuration n d)) = status (held d)"
  "outcome (held (setDuration n d)) = outcome (held d)"
  "winningLine (held (setDuration n d)) = winningLine (held d)"
  by (simp_all add: setTimerLastStartedAt_def setDuration_def assign_def)

lemma aiAssignments_paths:
  assumes "modifiedPaths d \<subseteq> {OTimePath}" and "status (held d) \<noteq> completed"
    and "outcome (held d) = None"
  shows "(OutcomePath \<in> modifiedPaths (aiAssignments b now d) \<longleftrightarrow>
          StatusPath \<in> modifiedPaths (aiAssignments b now d)) \<and>
         (StatusPath \<in> modifiedPaths (aiAssignments b now d) \<longrightarrow>
            status (held (aiAssignments b now d)) = completed \<and>
            outcome (held (aiAssignments b now d)) \<noteq> None) \<and>
         (WinningLinePath \<in> modifiedPaths (aiAssignments b now d) \<longrightarrow>
            (\<exists>line. winningLine (held (aiAssignments b now d)) = Some line \<and>
                    line \<in> set winningLines))"
  using decideDoc_paths [OF assms, of b "\<lambda>w. if w = ''O'' then lose else win"]
  by (simp add: aiAssignments_def Let_def later_assignments)

lemma gameStore_saveDoc:
  "gameStore (saveDoc gid d s) =
     (case gameStore s gid of
        None \<Rightarrow> gameStore s
      | Some stored \<Rightarrow> (gameStore s)(gid \<mapsto> writePaths (modifiedPaths d) (held d) stored))"
  by (simp add: saveDoc_def split: option.splits)

lemma gameStore_aiPlaceMove:
  "aiPlaceMove cl aiMove now s = (s2, toExpire, played, b) \<Longrightarrow> gameStore s2 = gameStore s"
  by (auto simp: aiPlaceMove_def Let_def)

lemma gameStore_aiAnnounce [simp]:
  "gameStore (aiAnnounce cl aiMove now toExpire played b g4 s3) = gameStore s3"
  by (simp add: aiAnnounce_def Let_def)

lemma aiReply_store:
  "\<exists>b. gameStore (aiReply cl aiMove now s) =
        gameStore (saveDoc (aiGameId cl) (aiAssignments b now (aiDoc cl)) s)"
proof -
  obtain s2 toExpire played b where run: "aiPlaceMove cl aiMove now s = (s2, toExpire, played, b)"
    by (cases "aiPlaceMove cl aiMove now s") auto
  from gameStore_aiPlaceMove [OF run] have s2: "gameStore s2 = gameStore s" .
  have "gameStore (aiReply cl aiMove now s) =
      gameStore (saveDoc (aiGameId cl) (aiAssignments b now (aiDoc cl))
        (if gameOver b then clearGameTimer (aiGameId cl) s2 else s2))"
    by (simp add: aiReply_def run Let_def)
  also have "\<dots> = gameStore (saveDoc (aiGameId cl) (aiAssignments b now (aiDoc cl)) s)"
    by (simp add: gameStore_saveDoc s2 split: option.splits)
  finally show ?thesis by blast
qed

lemma aiTurnResume_inv:
  assumes s: "storeInvariant s" and c: "closureInvariant cl"
  shows "storeInvariant (aiTurnResume cl now s)"
proof -
  let ?mv = "getBestMove (aiPlayerBoard cl)
      (case difficulty (held (aiDoc cl)) of None \<Rightarrow> easy | Some d \<Rightarrow> d)"
  show ?thesis
  proof (cases "applyMove (aiPlayerBoard cl) ?mv PlayerO")
    case None
    then have "aiTurnResume cl now s = emit ToSocket (ErrorEvent ''AI move failed'') s"
      by (simp add: aiTurnResume_def Let_def)
    with s show ?thesis by (simp add: storeInvariant_same)
  next
    case (Some moved)
    then have run: "aiTurnResume cl now s = aiReply cl ?mv now s"
      by (simp add: aiTurnResume_def Let_def)
    from aiReply_store [of cl ?mv now s] obtain b
      where st: "gameStore (aiReply cl ?mv now s) =
                   gameStore (saveDoc (aiGameId cl) (aiAssignments b now (aiDoc cl)) s)"
      by blast
    from c have "modifiedPaths (aiDoc cl) \<subseteq> {OTimePath}" "status (held (aiDoc cl)) \<noteq> completed"
      "outcome (held (aiDoc cl)) = None"
      by (simp_all add: closureInvariant_def)
    from aiAssignments_paths [OF this, of b now]
    have "storeInvariant (saveDoc (aiGameId cl) (aiAssignments b now (aiDoc cl)) s)"
      using s by (intro saveDoc_inv) blast+
    with st run show ?thesis by (simp add: storeInvariant_same)
  qed
qed

text \<open>The steps of the server keep the invariant of the store and of the pending turns.\<close>

lemma playerStep_inv:
  assumes "serverInvariant sv"
  shows "serverInvariant (playerStep req now sv)"
proof -
  from assms have s: "storeInvariant (serverState sv)"
    and cls: "\<forall>cl \<in> set (queuedTurns sv) \<union> set (waitingTurns sv). closureInvariant cl"
    by (simp_all add: serverInvariant_def)
  obtain s' c where run: "makeMove req now (serverState sv) = (s', c)"
    by (cases "makeMove req now (serverState sv)")
  from makeMove_inv [OF s, of req now] run
  have s': "storeInvariant s'" and c: "\<forall>cl. c = Some cl \<longrightarrow> closureInvariant cl"
    by simp_all
  show ?thesis
  proof (cases c)
    case None
    with run have "playerStep req now sv = sv \<lparr> serverState := s' \<rparr>"
      by (simp add: playerStep_def)
    with s' cls show ?thesis by (simp add: serverInvariant_def)
  next
    case (Some cl)
    with run have "playerStep req now sv =
        sv \<lparr> serverState := s', queuedTurns := queuedTurns sv @ [cl] \<rparr>"
      by (simp add: playerStep_def)
    moreover from c Some have "closureInvariant cl" by simp
    ultimately show ?thesis using s' cls by (auto simp: serverInvariant_def)
  qed
qed

lemma aiStartStep_inv:
  assumes "serverInvariant sv"
  shows "serverInvariant (aiStartStep r now sv)"
proof (cases "queuedTurns sv")
  case Nil
  then have "aiStartStep r now sv = sv" by (simp add: aiStartStep_def)
  with assms show ?thesis by simp
next
  case (Cons cl rest)
  from assms have s: "storeInvariant (serverState sv)"
    and cls: "\<forall>c \<in> set (queuedTurns sv) \<union> set (waitingTurns sv). closureInvariant c"
    by (simp_all add: serverInvariant_def)
  from cls Cons have c: "closureInvariant cl" and rest: "\<forall>c \<in> set rest. closureInvariant c"
    and waiting: "\<forall>c \<in> set (waitingTurns sv). closureInvariant c"
    by simp_all
  obtain s' c' where run: "aiTurnStart cl r now (serverState sv) = (s', c')"
    by (cases "aiTurnStart cl r now (serverState sv)")
  from aiTurnStart_inv [OF s c, of r now] run
  have s': "storeInvariant s'" and c': "\<forall>x. c' = Some x \<longrightarrow> closureInvariant x"
    by simp_all
  show ?thesis
  proof (cases c')
    case None
    with run Cons have "aiStartStep r now sv = sv \<lparr> serverState := s', queuedTurns := rest \<rparr>"
      by (simp add: aiStartStep_def)
    with s' rest waiting show ?thesis by (auto simp: serverInvariant_def)
  next
    case (Some x)
    with run Cons have "aiStartStep r now sv =
        sv \<lparr> serverState := s', queuedTurns := rest, waitingTurns := waitingTurns sv @ [x] \<rparr>"
      by (simp add: aiStartStep_def)
    moreover from c' Some have "closureInvariant x" by simp
    ultimately show ?thesis using s' rest waiting by (auto simp: serverInvariant_def)
  qed
qed

lemma aiReplyStep_inv:
  assumes "serverInvariant sv"
  shows "serverInvariant (aiReplyStep i now sv)"
proof (cases "i < length (waitingTurns sv)")
  case False
  then have "aiReplyStep i now sv = sv" by (simp add: aiReplyStep_def)
  with assms show ?thesis by simp
next
  case True
  from assms have s: "storeInvariant (serverState sv)"
    and queued: "\<forall>c \<in> set (queuedTurns sv). closureInvariant c"
    and waiting: "\<forall>c \<in> set (waitingTurns sv). closureInvariant c"
    by (simp_all add: serverInvariant_def)
  from True waiting have "closureInvariant (waitingTurns sv ! i)" by simp
  with s have "storeInvariant (aiTurnResume (waitingTurns sv ! i) now (serverState sv))"
    by (rule aiTurnResume_inv)
  moreover have "\<forall>c \<in> set (take i (waitingTurns sv) @ drop (Suc i) (waitingTurns sv)).
      closureInvariant c"
    using waiting by (auto dest: in_set_takeD in_set_dropD)
  moreover from True have "aiReplyStep i now sv =
      sv \<lparr> serverState := aiTurnResume (waitingTurns sv ! i) now (serverState sv),
           waitingTurns := take i (waitingTurns sv) @ drop (Suc i) (waitingTurns sv) \<rparr>"
    by (simp add: aiReplyStep_def)
  ultimately show ?thesis using queued by (auto simp: serverInvariant_def)
qed

lemma timeoutStep_inv:
  assumes "serverInvariant sv"
  shows "serverInvariant (timeoutStep gid p now sv)"
  using assms by (simp add: serverInvariant_def timeoutStep_def handleTimeout_inv)

lemma freshGame_inv: "freshGame g \<Longrightarrow> gameInvariant g"
  by (simp add: freshGame_def gameInvariant_def)

lemma reachable_serverInvariant: "reachable sv \<Longrightarrow> serverInvariant sv"
proof (induction rule: reachable.induct)
  case (initial sv)
  then show ?case by (simp add: serverInvariant_def storeInvariant_def freshGame_inv)
next
  case (created sv gid g)
  then show ?case by (simp add: serverInvariant_def storeInvariant_def freshGame_inv)
next
  case (moved sv req now)
  then show ?case by (simp add: playerStep_inv)
next
  case (aiStarted sv r now)
  then show ?case by (simp add: aiStartStep_inv)
next
  case (aiReplied sv i now)
  then show ?case by (simp add: aiReplyStep_inv)
next
  case (timedOut sv gid p now)
  then show ?case by (simp add: timeoutStep_inv)
qed

text \<open>
  Claim C3. In every state the server reaches through the \<open>make-move\<close> handler, the AI
  turns it schedules and the timeout handler, from games as they are created, each stored
  game has its outcome set if and only if its status is completed, and its winning line,
  when present, is one of the 8 lines of the board. The states between a player's move and
  the reply of the AI are among them, and a timeout may fire there while the AI turn
  waits.
\<close>

theorem reachable_game_invariant:
  assumes "reachable sv" and "gameStore (serverState sv) gid = Some g"
  shows "((outcome g \<noteq> None) \<longleftrightarrow> status g = completed) \<and>
         (\<forall>line. winningLine g = Some line \<longrightarrow> line \<in> set winningLines)"
proof -
  from reachable_serverInvariant [OF assms(1)] assms(2) have "gameInvariant g"
    by (simp add: serverInvariant_def storeInvariant_def)
  then show ?thesis by (auto simp: gameInvariant_def)
qed

lemma sampleEnd_game:
  "gameStore (serverState sampleEnd) ''g1'' =
     Some (localGame \<lparr> status := completed, outcome := Some win, duration := 5,
                       winningLine := Some [0, 1, 2] \<rparr>)"
  by code_simp

lemma sampleEnd_reachable: "reachable sampleEnd"
proof -
  have "reachable \<lparr> serverState = sampleStart, queuedTurns = [], waitingTurns = [] \<rparr>"
    by (rule reachable.initial) (simp_all add: sampleStart_def localGame_def freshGame_def)
  then show ?thesis
    unfolding sampleEnd_def sampleMove_def by (intro reachable.moved)
qed

text \<open>
  The run against the clock: after the move of \<open>X\<close> the game is in progress and the AI
  turn is queued; the timeout of \<open>X\<close> forfeits the game while the AI turn waits; the
  reply of the AI then writes its clock, the start of the clock of \<open>X\<close> and the
  duration, and leaves the status and the outcome of the stored game as they are.
\<close>

lemma clockMoved_game:
  "map_option (\<lambda>g. (status g, outcome g, winningLine g)) (gameStore (serverState clockMoved) ''g1'') =
     Some (in_progress, None, None) \<and>
   length (queuedTurns clockMoved) = 1 \<and>
   gameTimers (serverState clockMoved) ''g1'' = Some (10000, PlayerX)"
  by code_simp

lemma clockForfeited_game:
  "map_option (\<lambda>g. (status g, outcome g, timeoutLoser g))
     (gameStore (serverState clockForfeited) ''g1'') =
     Some (completed, Some lose, Some PlayerX) \<and>
   length (waitingTurns clockForfeited) = 1"
  by code_simp

lemma clockEnd_game:
  "map_option (\<lambda>g. (status g, outcome g, winningLine g, timeoutLoser g, timerLastStartedAt g,
                    duration g, playerXTimeRemaining g, playerOTimeRemaining g))
     (gameStore (serverState clockEnd) ''g1'') =
     Some (completed, Some lose, None, Some PlayerX, Some 12500, 12, 0, 7)"
  by code_simp

lemma clockEnd_reachable: "reachable clockMoved \<and> reachable clockForfeited \<and> reachable clockEnd"
proof -
  have "reachable clockStart"
    by (rule reachable.initial)
      (simp_all add: clockStart_def clockGame_def sampleStart_def localGame_def freshGame_def)
  then have a: "reachable clockMoved"
    unfolding clockMoved_def sampleMove_def by (rule reachable.moved)
  note a
  moreover have "roundRat (1 / 8) = 1 / 8" by code_simp
  ultimately have "reachable clockThinking"
    unfolding clockThinking_def by (intro reachable.aiStarted) simp_all
  then have b: "reachable clockForfeited"
    unfolding clockForfeited_def by (rule reachable.timedOut)
  then have "reachable clockEnd"
    unfolding clockEnd_def by (rule reachable.aiReplied)
  with a b show ?thesis by simp
qed

theorem reachable_game_invariant_witness:
  "reachable sampleEnd \<and>
   (\<exists>g. gameStore (serverState sampleEnd) ''g1'' = Some g \<and> status g = completed \<and>
        outcome g = Some win \<and> winningLine g = Some [0, 1, 2] \<and> [0, 1, 2] \<in> set winningLines) \<and>
   reachable clockMoved \<and>
   (\<exists>g. gameStore (serverState clockMoved) ''g1'' = Some g \<and> status g = in_progress \<and>
        outcome g = None) \<and>
   reachable clockEnd \<and>
   (\<exists>g. gameStore (serverState clockEnd) ''g1'' = Some g \<and> status g = completed \<and>
        outcome g = Some lose \<and> winningLine g = None \<and> timeoutLoser g = Some PlayerX)"
proof -
  let ?g = "localGame \<lparr> status := completed, outcome := Some win, duration := 5,
                        winningLine := Some [0, 1, 2] \<rparr>"
  from reachable_game_invariant [OF sampleEnd_reachable sampleEnd_game]
  have "\<forall>line. winningLine ?g = Some line \<longrightarrow> line \<in> set winningLines" by blast
  then have a: "[0, 1, 2] \<in> set winningLines" by simp
  from clockMoved_game obtain g1 where g1: "gameStore (serverState clockMoved) ''g1'' = Some g1"
    and g1s: "status g1 = in_progress"
    by auto
  from clockEnd_reachable have rm: "reachable clockMoved" and re: "reachable clockEnd"
    by simp_all
  from reachable_game_invariant [OF rm g1] g1s have b: "outcome g1 = None" by auto
  from clockEnd_game obtain g2 where g2: "gameStore (serverState clockEnd) ''g1'' = Some g2"
    and g2f: "outcome g2 = Some lose" "winningLine g2 = None" "timeoutLoser g2 = Some PlayerX"
    by auto
  from reachable_game_invariant [OF re g2] g2f(1) have c: "status g2 = completed" by auto
  from sampleEnd_reachable sampleEnd_game a rm re g1 g1s b g2 g2f c show ?thesis by simp
qed

section \<open>Progress percentage\<close>

lemma dval_powi: "dval d = of_int (fst d) * 2 powi (snd d)"
proof (cases "snd d \<ge> 0")
  case True
  then show ?thesis by (simp add: dval_def power_int_def)
next
  case False
  then have "(2::rat) powi (snd d) = inverse (2 ^ nat (- snd d))"
    by (simp add: power_int_def power_one_over inverse_eq_divide)
  with False show ?thesis by (simp add: dval_def divide_inverse)
qed

lemma roundHalfEven_int:
  assumes "b > 0"
  shows "2 * \<bar>roundHalfEven a b * b - a\<bar> \<le> b"
proof -
  define q r where "q = a div b" and "r = a mod b"
  have a: "a = q * b + r" by (simp add: q_def r_def)
  have r: "0 \<le> r" "r < b" using assms by (simp_all add: r_def)
  have rhe: "roundHalfEven a b =
      (if 2 * r < b then q else if 2 * r > b then q + 1 else if even q then q else q + 1)"
    by (simp add: roundHalfEven_def Let_def q_def r_def)
  consider "2 * r < b" | "2 * r > b" | "2 * r = b" "even q" | "2 * r = b" "odd q"
    by linarith
  then show ?thesis
  proof cases
    case 1
    then have "roundHalfEven a b * b - a = - r" using rhe a by simp
    with 1 r show ?thesis by simp
  next
    case 2
    then have "roundHalfEven a b * b - a = b - r" using rhe a by (simp add: algebra_simps)
    with 2 r show ?thesis by simp
  next
    case 3
    then have "roundHalfEven a b * b - a = - r" using rhe a by simp
    with 3 r show ?thesis by simp
  next
    case 4
    then have "roundHalfEven a b * b - a = b - r" using rhe a by (simp add: algebra_simps)
    with 4 r show ?thesis by simp
  qed
qed

lemma roundHalfEven_error:
  assumes "b > 0"
  shows "\<bar>of_int (roundHalfEven a b) - of_int a / of_int b\<bar> \<le> (1 / 2 :: rat)"
proof -
  let ?m = "roundHalfEven a b"
  have b: "(0::rat) < of_int b" using assms by simp
  have "of_int ?m - of_int a / of_int b = (of_int (?m * b - a) :: rat) / of_int b"
    using b by (simp add: field_simps)
  then have "\<bar>of_int ?m - of_int a / of_int b\<bar> = (of_int \<bar>?m * b - a\<bar> :: rat) / of_int b"
    using b by (simp add: abs_divide del: of_int_diff of_int_mult)
  also have "\<dots> \<le> 1 / 2"
  proof -
    from roundHalfEven_int [OF assms, of a]
    have "(of_int (2 * \<bar>?m * b - a\<bar>) :: rat) \<le> of_int b"
      by (simp only: of_int_le_iff)
    then show ?thesis using b by (simp add: field_simps)
  qed
  finally show ?thesis .
qed

lemma powi_pos [simp]: "(0::rat) < 2 powi e"
  by (simp add: zero_less_power_int)

lemma powi_add: "(2::rat) powi (m + n) = 2 powi m * 2 powi n"
  by (simp add: power_int_add)

lemma powi_nat: "(2::rat) ^ n = 2 powi (int n)"
  by (simp add: power_int_def)

declare bitLength.simps [simp del]

lemma bitLength_bounds:
  "a > 0 \<Longrightarrow> 2 ^ (bitLength a - 1) \<le> a \<and> a < 2 ^ bitLength a"
proof (induction a rule: bitLength.induct)
  case (1 a)
  show ?case
  proof (cases "a div 2 \<le> 0")
    case True
    with "1.prems" have a1: "a = 1" by linarith
    have "bitLength 1 = Suc 0"
      by (simp add: bitLength.simps [of 1] bitLength.simps [of 0])
    with a1 show ?thesis by simp
  next
    case False
    define k where "k = bitLength (a div 2)"
    from False "1.prems" "1.IH" have ih: "2 ^ (k - 1) \<le> a div 2" "a div 2 < 2 ^ k"
      by (simp_all add: k_def)
    have kpos: "k > 0"
      using False by (simp add: k_def bitLength.simps [of "a div 2"])
    have bl: "bitLength a = Suc k"
      using "1.prems" by (simp add: k_def bitLength.simps [of a])
    have two: "(2::int) ^ k = 2 * 2 ^ (k - 1)"
      using kpos by (cases k) simp_all
    have "2 * (a div 2) \<le> a" by simp
    with ih(1) two have lo: "2 ^ k \<le> a" by linarith
    have "a < 2 * (a div 2) + 2" by linarith
    with ih(2) have hi: "a < 2 * 2 ^ k" by linarith
    from lo hi show ?thesis by (simp add: bl)
  qed
qed

lemma bitLength_pos: "a > 0 \<Longrightarrow> bitLength a > 0"
  by (simp add: bitLength.simps [of a])

lemma bitlen_powi:
  assumes "a > 0"
  shows "(2::rat) powi (int (bitLength a) - 1) \<le> of_int a \<and>
         (of_int a :: rat) < 2 powi (int (bitLength a))"
proof -
  define k where "k = bitLength a"
  from bitLength_bounds [OF assms]
  have lo: "2 ^ (k - 1) \<le> a" and hi: "a < 2 ^ k" by (simp_all add: k_def)
  have kpos: "k > 0" using bitLength_pos [OF assms] by (simp add: k_def)
  from lo have "(of_int ((2::int) ^ (k - 1)) :: rat) \<le> of_int a" by (simp only: of_int_le_iff)
  then have "(2::rat) ^ (k - 1) \<le> of_int a" by simp
  moreover have "(2::rat) powi (int k - 1) = 2 ^ (k - 1)"
    using kpos by (simp add: power_int_def nat_diff_distrib')
  moreover from hi have "(of_int a :: rat) < of_int ((2::int) ^ k)" by (simp only: of_int_less_iff)
  then have "(of_int a :: rat) < 2 ^ k" by simp
  moreover have "(2::rat) powi (int k) = 2 ^ k" by (simp add: power_int_def)
  ultimately show ?thesis by (simp add: k_def)
qed

lemma ilog2_test:
  assumes "a > 0" and "b > 0"
  shows "ilog2 a b = (let d = int (bitLength a) - int (bitLength b)
     in if (2::rat) powi d \<le> of_int a / of_int b then d else d - 1)"
proof -
  define d where "d = int (bitLength a) - int (bitLength b)"
  have b: "(0::rat) < of_int b" using assms by simp
  have test: "(if d \<ge> 0 then b * 2 ^ nat d \<le> a else b \<le> a * 2 ^ nat (- d)) \<longleftrightarrow>
      (2::rat) powi d \<le> of_int a / of_int b"
  proof (cases "d \<ge> 0")
    case True
    have "b * 2 ^ nat d \<le> a \<longleftrightarrow> (of_int (b * 2 ^ nat d) :: rat) \<le> of_int a"
      by (simp only: of_int_le_iff)
    also have "\<dots> \<longleftrightarrow> (2::rat) powi d \<le> of_int a / of_int b"
      using True b by (simp add: power_int_def field_simps)
    finally show ?thesis using True by simp
  next
    case False
    have "b \<le> a * 2 ^ nat (- d) \<longleftrightarrow> (of_int b :: rat) \<le> of_int (a * 2 ^ nat (- d))"
      by (simp only: of_int_le_iff)
    also have "\<dots> \<longleftrightarrow> (2::rat) powi d \<le> of_int a / of_int b"
      using False b by (simp add: power_int_def field_simps power_one_over)
    finally show ?thesis using False by simp
  qed
  have "ilog2 a b =
      (if (if d \<ge> 0 then b * 2 ^ nat d \<le> a else b \<le> a * 2 ^ nat (- d)) then d else d - 1)"
    by (simp add: ilog2_def Let_def d_def)
  then show ?thesis
    unfolding test by (simp add: Let_def d_def)
qed

lemma ilog2_bounds:
  assumes "a > 0" and "b > 0"
  shows "(2::rat) powi (ilog2 a b) \<le> of_int a / of_int b \<and>
         of_int a / of_int b < (2::rat) powi (ilog2 a b + 1)"
proof -
  define d where "d = int (bitLength a) - int (bitLength b)"
  let ?q = "of_int a / of_int b :: rat"
  have a: "(0::rat) < of_int a" and b: "(0::rat) < of_int b" using assms by simp_all
  from bitlen_powi [OF assms(1)] bitlen_powi [OF assms(2)]
  have alo: "(2::rat) powi (int (bitLength a) - 1) \<le> of_int a" and ahi: "(of_int a :: rat) < 2 powi (int (bitLength a))"
    and blo: "(2::rat) powi (int (bitLength b) - 1) \<le> of_int b" and bhi: "(of_int b :: rat) < 2 powi (int (bitLength b))"
    by simp_all
  have upper: "?q < 2 powi (d + 1)"
  proof -
    have "?q < 2 powi (int (bitLength a)) / of_int b"
      using ahi b by (simp add: divide_strict_right_mono)
    also have "\<dots> \<le> 2 powi (int (bitLength a)) / 2 powi (int (bitLength b) - 1)"
      using blo b by (intro divide_left_mono mult_pos_pos) simp_all
    also have "\<dots> = 2 powi (d + 1)"
    proof -
      have "(2::rat) powi (int (bitLength a)) = 2 powi (d + 1) * 2 powi (int (bitLength b) - 1)"
        unfolding powi_add [symmetric] by (simp add: d_def)
      then show ?thesis by simp
    qed
    finally show ?thesis .
  qed
  have lower: "2 powi (d - 1) \<le> ?q"
  proof -
    have "2 powi (d - 1) = (2::rat) powi (int (bitLength a) - 1) / 2 powi (int (bitLength b))"
    proof -
      have "(2::rat) powi (int (bitLength a) - 1) = 2 powi (d - 1) * 2 powi (int (bitLength b))"
        unfolding powi_add [symmetric] by (simp add: d_def)
      then show ?thesis by simp
    qed
    also have "\<dots> \<le> of_int a / 2 powi (int (bitLength b))"
      using alo by (simp add: divide_right_mono)
    also have "\<dots> \<le> ?q"
      using bhi a b by (intro divide_left_mono mult_pos_pos) simp_all
    finally show ?thesis .
  qed
  show ?thesis
  proof (cases "(2::rat) powi d \<le> ?q")
    case True
    then have "ilog2 a b = d" using ilog2_test [OF assms] by (simp add: Let_def d_def)
    with True upper show ?thesis by simp
  next
    case False
    then have e: "ilog2 a b = d - 1" using ilog2_test [OF assms] by (simp add: Let_def d_def)
    from False have "?q < 2 powi d" by simp
    with lower e show ?thesis by simp
  qed
qed

lemma roundDouble_error:
  assumes "a > 0" and "b > 0"
  shows "\<bar>dval (roundDouble a b) - of_int a / of_int b\<bar> \<le> (of_int a / of_int b) / 2 ^ 53 \<and>
         fst (roundDouble a b) > 0"
proof -
  define e where "e = ilog2 a b"
  define sh where "sh = 52 - e"
  define q :: rat where "q = of_int a / of_int b"
  define t :: rat where "t = q * 2 powi sh"
  define m where "m = (if sh \<ge> 0 then roundHalfEven (a * 2 ^ nat sh) b
                        else roundHalfEven a (b * 2 ^ nat (- sh)))"
  have bpos: "(0::rat) < of_int b" using assms by simp
  have rd: "roundDouble a b = (m, - sh)"
    using assms by (simp add: roundDouble_def Let_def m_def sh_def e_def)
  from ilog2_bounds [OF assms] have lo: "2 powi e \<le> q"
    by (simp add: e_def q_def)
  have mt: "\<bar>of_int m - t\<bar> \<le> 1 / 2"
  proof (cases "sh \<ge> 0")
    case True
    have "(of_int (a * 2 ^ nat sh) :: rat) / of_int b = t"
      using True by (simp add: t_def q_def power_int_def)
    with roundHalfEven_error [OF assms(2), of "a * 2 ^ nat sh"] True show ?thesis
      by (simp add: m_def)
  next
    case False
    have den: "b * 2 ^ nat (- sh) > 0" using assms by simp
    have "(of_int a :: rat) / of_int (b * 2 ^ nat (- sh)) = t"
      using False by (simp add: t_def q_def power_int_def power_one_over field_simps)
    with roundHalfEven_error [OF den, of a] False show ?thesis
      by (simp add: m_def)
  qed
  have undo: "t * 2 powi (- sh) = q"
  proof -
    have "(2::rat) powi sh * 2 powi (- sh) = 2 powi (sh + - sh)"
      by (rule powi_add [symmetric])
    then show ?thesis by (simp add: t_def)
  qed
  have "dval (roundDouble a b) - q = (of_int m - t) * 2 powi (- sh)"
    by (simp add: rd dval_powi undo algebra_simps)
  then have "\<bar>dval (roundDouble a b) - q\<bar> = \<bar>of_int m - t\<bar> * 2 powi (- sh)"
    by (simp add: abs_mult)
  also have "\<dots> \<le> (1 / 2) * 2 powi (- sh)"
    using mt by (intro mult_right_mono) simp_all
  also have "\<dots> = 2 powi e / 2 ^ 53"
  proof -
    have "- sh = e + (- 52)" by (simp add: sh_def)
    then have "(2::rat) powi (- sh) = 2 powi e * 2 powi (- 52)"
      by (simp only: powi_add)
    moreover have "(2::rat) powi (- 52) = 1 / 2 ^ 52"
      by (simp add: power_int_minus_divide)
    ultimately show ?thesis by simp
  qed
  also have "\<dots> \<le> q / 2 ^ 53"
    using lo by (simp add: divide_right_mono)
  finally have err: "\<bar>dval (roundDouble a b) - q\<bar> \<le> q / 2 ^ 53" .
  have "t \<ge> 2 powi e * 2 powi sh"
    unfolding t_def using lo by (intro mult_right_mono) simp_all
  moreover have "(2::rat) powi e * 2 powi sh = 2 powi 52"
    unfolding powi_add [symmetric] by (simp add: sh_def)
  ultimately have "t \<ge> 1" by simp
  moreover from mt have "t - of_int m \<le> 1 / 2" by linarith
  ultimately have "(of_int m :: rat) > 0" by linarith
  then have "m > 0" by simp
  with err rd show ?thesis by (simp add: q_def)
qed

lemma fmul100_error:
  assumes "fst x > 0"
  shows "\<bar>dval (fmul100 x) - 100 * dval x\<bar> \<le> (100 * dval x) / 2 ^ 53"
proof -
  obtain m2 e2 where rd: "roundDouble (100 * fst x) 1 = (m2, e2)"
    by (cases "roundDouble (100 * fst x) 1")
  have pos: "100 * fst x > 0" using assms by simp
  from roundDouble_error [OF pos, of 1] rd
  have err: "\<bar>dval (m2, e2) - of_int (100 * fst x)\<bar> \<le> of_int (100 * fst x) / 2 ^ 53"
    by simp
  have f: "fmul100 x = (m2, e2 + snd x)" by (simp add: fmul100_def rd)
  have "dval (fmul100 x) - 100 * dval x =
      (dval (m2, e2) - of_int (100 * fst x)) * 2 powi (snd x)"
    by (simp add: f dval_powi powi_add algebra_simps)
  then have "\<bar>dval (fmul100 x) - 100 * dval x\<bar> =
      \<bar>dval (m2, e2) - of_int (100 * fst x)\<bar> * 2 powi (snd x)"
    by (simp add: abs_mult)
  also have "\<dots> \<le> (of_int (100 * fst x) / 2 ^ 53) * 2 powi (snd x)"
    using err by (intro mult_right_mono) simp_all
  also have "\<dots> = (100 * dval x) / 2 ^ 53"
    by (simp add: dval_powi)
  finally show ?thesis .
qed

lemma mathRound_floor: "mathRound x = \<lfloor>dval x + 1 / 2\<rfloor>"
proof (cases "snd x \<ge> 0")
  case True
  have "dval x = of_int (fst x * 2 ^ nat (snd x))"
    using True by (simp add: dval_def)
  moreover have "\<lfloor>(of_int n :: rat) + 1 / 2\<rfloor> = n" for n
    by (rule floor_unique) simp_all
  ultimately have "\<lfloor>dval x + 1 / 2\<rfloor> = fst x * 2 ^ nat (snd x)"
    by (simp only:)
  with True show ?thesis by (simp only: mathRound_def if_True)
next
  case False
  define k where "k = nat (- snd x)"
  have "dval x + 1 / 2 = (of_int (2 * fst x + 2 ^ k) :: rat) / of_int (2 ^ (k + 1))"
    using False by (simp add: dval_def k_def field_simps)
  then have "\<lfloor>dval x + 1 / 2\<rfloor> = (2 * fst x + 2 ^ k) div 2 ^ (k + 1)"
    by (simp only: floor_divide_of_int_eq)
  with False show ?thesis by (simp add: mathRound_def k_def)
qed

lemma floor_near_ratio:
  fixes w :: rat and n d :: int
  assumes d: "d > 0" and near: "\<bar>w - of_int n / of_int d\<bar> < 1 / of_int d"
  shows "\<lfloor>w\<rfloor> = n div d \<or> (n mod d = 0 \<and> \<lfloor>w\<rfloor> = n div d - 1)"
proof -
  define q r where "q = n div d" and "r = n mod d"
  have n: "n = d * q + r" by (simp add: q_def r_def)
  have r: "0 \<le> r" "r < d" using d by (simp_all add: r_def)
  have dpos: "(0::rat) < of_int d" using d by simp
  have ratio: "(of_int n :: rat) / of_int d = of_int q + of_int r / of_int d"
    using dpos by (simp add: n field_simps)
  from near have lo: "of_int n / of_int d - 1 / of_int d < w"
    and hi: "w < of_int n / of_int d + 1 / of_int d"
    by (simp_all add: abs_less_iff)
  have "(of_int r :: rat) + 1 \<le> of_int d"
    using r by (metis of_int_1 of_int_add of_int_le_iff zless_imp_add1_zle)
  then have "(of_int r :: rat) / of_int d + 1 / of_int d \<le> 1"
    using dpos by (simp add: field_simps)
  with hi ratio have upper: "w < of_int q + 1" by linarith
  then have le: "\<lfloor>w\<rfloor> \<le> q" by (simp add: floor_le_iff)
  show ?thesis
  proof (cases "r = 0")
    case True
    have "(1::rat) / of_int d \<le> 1" using d dpos by (simp add: field_simps)
    with lo ratio True have "of_int (q - 1) \<le> w" by simp
    then have "q - 1 \<le> \<lfloor>w\<rfloor>" by (simp only: le_floor_iff)
    with le True show ?thesis unfolding q_def r_def by linarith
  next
    case False
    with r have "(1::rat) \<le> of_int r" by simp
    then have "(1::rat) / of_int d \<le> of_int r / of_int d"
      using dpos by (simp add: divide_right_mono)
    with lo ratio have "of_int q \<le> w" by linarith
    then have "q \<le> \<lfloor>w\<rfloor>" by (simp only: le_floor_iff)
    with le show ?thesis unfolding q_def by linarith
  qed
qed

lemma percent_rounding:
  assumes p: "0 < p" and bound: "p \<le> 2 ^ 43" and s: "0 < s"
  shows "mathRound (fmul100 (fdiv p s)) = (200 * p + s) div (2 * s) \<or>
         ((200 * p + s) mod (2 * s) = 0 \<and>
          mathRound (fmul100 (fdiv p s)) = (200 * p + s) div (2 * s) - 1)"
proof -
  define q :: rat where "q = of_int p / of_int s"
  define x1 where "x1 = dval (fdiv p s)"
  define v where "v = dval (fmul100 (fdiv p s))"
  have spos: "(0::rat) < of_int s" and ppos: "(0::rat) < of_int p" using p s by simp_all
  have qpos: "0 < q" using spos ppos by (simp add: q_def)
  from roundDouble_error [OF p s]
  have e1: "\<bar>x1 - q\<bar> \<le> q / 2 ^ 53" and m1: "fst (fdiv p s) > 0"
    by (simp_all add: x1_def q_def fdiv_def)
  from fmul100_error [OF m1] have e2: "\<bar>v - 100 * x1\<bar> \<le> (100 * x1) / 2 ^ 53"
    by (simp add: v_def x1_def)
  from e1 have "x1 - q \<le> q / 2 ^ 53" by (simp only: abs_le_iff)
  then have "x1 \<le> q + q / 2 ^ 53" by (simp only: diff_le_eq add.commute)
  also have "\<dots> \<le> 2 * q" using qpos by simp
  finally have x1q: "x1 \<le> 2 * q" .
  have tri: "\<bar>v - 100 * q\<bar> \<le> \<bar>v - 100 * x1\<bar> + 100 * \<bar>x1 - q\<bar>"
  proof -
    have "v - 100 * q = (v - 100 * x1) + 100 * (x1 - q)" by simp
    then have "\<bar>v - 100 * q\<bar> \<le> \<bar>v - 100 * x1\<bar> + \<bar>100 * (x1 - q)\<bar>"
      by (simp only: abs_triangle_ineq)
    moreover have "\<bar>100 * (x1 - q)\<bar> = 100 * \<bar>x1 - q\<bar>"
      by (simp only: abs_mult abs_numeral)
    ultimately show ?thesis by simp
  qed
  also have "\<dots> \<le> (100 * x1) / 2 ^ 53 + 100 * (q / 2 ^ 53)"
  proof (rule add_mono)
    show "\<bar>v - 100 * x1\<bar> \<le> (100 * x1) / 2 ^ 53" by (rule e2)
    show "100 * \<bar>x1 - q\<bar> \<le> 100 * (q / 2 ^ 53)"
      using e1 by (intro mult_left_mono) simp_all
  qed
  also have "\<dots> \<le> (100 * (2 * q)) / 2 ^ 53 + 100 * (q / 2 ^ 53)"
    using x1q by (simp add: divide_right_mono)
  also have "\<dots> = 300 * q / 2 ^ 53" by simp
  finally have err: "\<bar>v - 100 * q\<bar> \<le> 300 * q / 2 ^ 53" .
  have "(of_int (600 * p) :: rat) < of_int (2 ^ 53)"
    using bound by (simp only: of_int_less_iff) simp
  then have small: "600 * (of_int p :: rat) < 2 ^ 53" by simp
  have "300 * q / 2 ^ 53 < 1 / of_int (2 * s)"
  proof -
    have "300 * q / 2 ^ 53 = (600 * of_int p / 2 ^ 53) * (1 / of_int (2 * s))"
      using spos by (simp add: q_def)
    also have "\<dots> < 1 * (1 / of_int (2 * s))"
      using small spos by (intro mult_strict_right_mono) simp_all
    finally show ?thesis by simp
  qed
  with err have near0: "\<bar>v - 100 * q\<bar> < 1 / of_int (2 * s)" by linarith
  have "(of_int (200 * p + s) :: rat) / of_int (2 * s) = 100 * q + 1 / 2"
    using spos by (simp add: q_def field_simps)
  with near0
  have near: "\<bar>(v + 1 / 2) - of_int (200 * p + s) / of_int (2 * s)\<bar> < 1 / of_int (2 * s)"
    by simp
  have d: "2 * s > 0" using s by simp
  from floor_near_ratio [OF d near] show ?thesis
    by (simp add: mathRound_floor v_def)
qed

lemma exactPercent_div:
  assumes "mn < mx"
  shows "exactPercent points mn mx =
     max 0 (min 100 ((200 * (points - mn) + (mx - mn)) div (2 * (mx - mn))))"
proof -
  have s: "(0::rat) < of_int (mx - mn)" using assms by simp
  have "(100 * of_int (points - mn) / of_int (mx - mn) :: rat) + 1 / 2 =
      of_int (200 * (points - mn) + (mx - mn)) / of_int (2 * (mx - mn))"
    using s by (simp add: field_simps)
  then have "\<lfloor>(100 * of_int (points - mn) / of_int (mx - mn) :: rat) + 1 / 2\<rfloor> =
      (200 * (points - mn) + (mx - mn)) div (2 * (mx - mn))"
    by (simp only: floor_divide_of_int_eq)
  then show ?thesis by (simp only: exactPercent_def)
qed

lemma zero_progress: "mathRound (fmul100 (fdiv 0 s)) = 0"
  by (simp add: fdiv_def fmul100_def roundDouble_def mathRound_def)

lemma tie_part0: "map (\<lambda>k. tieValue k - k) [0, 1, 2, 3, 4, 5, 6, 7, 8, 9] = [1, 1, 1, 1, 1, 1, 1, 1, 1, 1]"
  by code_simp

lemma tie_part1: "map (\<lambda>k. tieValue k - k) [10, 11, 12, 13, 14, 15, 16, 17, 18, 19] = [1, 1, 1, 1, 0, 1, 1, 1, 1, 1]"
  by code_simp

lemma tie_part2: "map (\<lambda>k. tieValue k - k) [20, 21, 22, 23, 24, 25, 26, 27, 28, 29] = [1, 1, 1, 1, 1, 1, 1, 1, 0, 1]"
  by code_simp

lemma tie_part3: "map (\<lambda>k. tieValue k - k) [30, 31, 32, 33, 34, 35, 36, 37, 38, 39] = [1, 1, 1, 1, 1, 1, 1, 1, 1, 1]"
  by code_simp

lemma tie_part4: "map (\<lambda>k. tieValue k - k) [40, 41, 42, 43, 44, 45, 46, 47, 48, 49] = [1, 1, 1, 1, 1, 1, 1, 1, 1, 1]"
  by code_simp

lemma tie_part5: "map (\<lambda>k. tieValue k - k) [50, 51, 52, 53, 54, 55, 56, 57, 58, 59] = [1, 1, 1, 1, 1, 1, 0, 0, 1, 1]"
  by code_simp

lemma tie_part6: "map (\<lambda>k. tieValue k - k) [60, 61, 62, 63, 64, 65, 66, 67, 68, 69] = [1, 1, 1, 1, 1, 1, 1, 1, 1, 1]"
  by code_simp

lemma tie_part7: "map (\<lambda>k. tieValue k - k) [70, 71, 72, 73, 74, 75, 76, 77, 78, 79] = [1, 1, 1, 1, 1, 1, 1, 1, 1, 1]"
  by code_simp

lemma tie_part8: "map (\<lambda>k. tieValue k - k) [80, 81, 82, 83, 84, 85, 86, 87, 88, 89] = [1, 1, 1, 1, 1, 1, 1, 1, 1, 1]"
  by code_simp

lemma tie_part9: "map (\<lambda>k. tieValue k - k) [90, 91, 92, 93, 94, 95, 96, 97, 98, 99] = [1, 1, 1, 1, 1, 1, 1, 1, 1, 1]"
  by code_simp

lemma tie_table:
  assumes "0 \<le> k" and "k < 100"
  shows "tieValue k = (if k \<in> {14, 28, 56, 57} then k else k + 1)"
proof -
  from assms consider "0 \<le> k \<and> k \<le> 9" | "10 \<le> k \<and> k \<le> 19" | "20 \<le> k \<and> k \<le> 29" | "30 \<le> k \<and> k \<le> 39" | "40 \<le> k \<and> k \<le> 49" | "50 \<le> k \<and> k \<le> 59" | "60 \<le> k \<and> k \<le> 69" | "70 \<le> k \<and> k \<le> 79" | "80 \<le> k \<and> k \<le> 89" | "90 \<le> k \<and> k \<le> 99"
    by linarith
  then show ?thesis
  proof cases
  
    case 1
    have e: "[0..9] = [0, 1, 2, 3, 4, 5, 6, 7, 8, 9]" by (simp add: upto_rec1)
    from 1 have "k \<in> set [0..9]" by (simp only: set_upto atLeastAtMost_iff)
    then have "k \<in> set [0, 1, 2, 3, 4, 5, 6, 7, 8, 9]" by (simp only: e)
    moreover from tie_part0
    have "list_all (\<lambda>j. tieValue j = (if j \<in> {14, 28, 56, 57} then j else j + 1)) [0, 1, 2, 3, 4, 5, 6, 7, 8, 9]"
      by simp
    ultimately show ?thesis by (simp only: list_all_iff)
  next
    case 2
    have e: "[10..19] = [10, 11, 12, 13, 14, 15, 16, 17, 18, 19]" by (simp add: upto_rec1)
    from 2 have "k \<in> set [10..19]" by (simp only: set_upto atLeastAtMost_iff)
    then have "k \<in> set [10, 11, 12, 13, 14, 15, 16, 17, 18, 19]" by (simp only: e)
    moreover from tie_part1
    have "list_all (\<lambda>j. tieValue j = (if j \<in> {14, 28, 56, 57} then j else j + 1)) [10, 11, 12, 13, 14, 15, 16, 17, 18, 19]"
      by simp
    ultimately show ?thesis by (simp only: list_all_iff)
  next
    case 3
    have e: "[20..29] = [20, 21, 22, 23, 24, 25, 26, 27, 28, 29]" by (simp add: upto_rec1)
    from 3 have "k \<in> set [20..29]" by (simp only: set_upto atLeastAtMost_iff)
    then have "k \<in> set [20, 21, 22, 23, 24, 25, 26, 27, 28, 29]" by (simp only: e)
    moreover from tie_part2
    have "list_all (\<lambda>j. tieValue j = (if j \<in> {14, 28, 56, 57} then j else j + 1)) [20, 21, 22, 23, 24, 25, 26, 27, 28, 29]"
      by simp
    ultimately show ?thesis by (simp only: list_all_iff)
  next
    case 4
    have e: "[30..39] = [30, 31, 32, 33, 34, 35, 36, 37, 38, 39]" by (simp add: upto_rec1)
    from 4 have "k \<in> set [30..39]" by (simp only: set_upto atLeastAtMost_iff)
    then have "k \<in> set [30, 31, 32, 33, 34, 35, 36, 37, 38, 39]" by (simp only: e)
    moreover from tie_part3
    have "list_all (\<lambda>j. tieValue j = (if j \<in> {14, 28, 56, 57} then j else j + 1)) [30, 31, 32, 33, 34, 35, 36, 37, 38, 39]"
      by simp
    ultimately show ?thesis by (simp only: list_all_iff)
  next
    case 5
    have e: "[40..49] = [40, 41, 42, 43, 44, 45, 46, 47, 48, 49]" by (simp add: upto_rec1)
    from 5 have "k \<in> set [40..49]" by (simp only: set_upto atLeastAtMost_iff)
    then have "k \<in> set [40, 41, 42, 43, 44, 45, 46, 47, 48, 49]" by (simp only: e)
    moreover from tie_part4
    have "list_all (\<lambda>j. tieValue j = (if j \<in> {14, 28, 56, 57} then j else j + 1)) [40, 41, 42, 43, 44, 45, 46, 47, 48, 49]"
      by simp
    ultimately show ?thesis by (simp only: list_all_iff)
  next
    case 6
    have e: "[50..59] = [50, 51, 52, 53, 54, 55, 56, 57, 58, 59]" by (simp add: upto_rec1)
    from 6 have "k \<in> set [50..59]" by (simp only: set_upto atLeastAtMost_iff)
    then have "k \<in> set [50, 51, 52, 53, 54, 55, 56, 57, 58, 59]" by (simp only: e)
    moreover from tie_part5
    have "list_all (\<lambda>j. tieValue j = (if j \<in> {14, 28, 56, 57} then j else j + 1)) [50, 51, 52, 53, 54, 55, 56, 57, 58, 59]"
      by simp
    ultimately show ?thesis by (simp only: list_all_iff)
  next
    case 7
    have e: "[60..69] = [60, 61, 62, 63, 64, 65, 66, 67, 68, 69]" by (simp add: upto_rec1)
    from 7 have "k \<in> set [60..69]" by (simp only: set_upto atLeastAtMost_iff)
    then have "k \<in> set [60, 61, 62, 63, 64, 65, 66, 67, 68, 69]" by (simp only: e)
    moreover from tie_part6
    have "list_all (\<lambda>j. tieValue j = (if j \<in> {14, 28, 56, 57} then j else j + 1)) [60, 61, 62, 63, 64, 65, 66, 67, 68, 69]"
      by simp
    ultimately show ?thesis by (simp only: list_all_iff)
  next
    case 8
    have e: "[70..79] = [70, 71, 72, 73, 74, 75, 76, 77, 78, 79]" by (simp add: upto_rec1)
    from 8 have "k \<in> set [70..79]" by (simp only: set_upto atLeastAtMost_iff)
    then have "k \<in> set [70, 71, 72, 73, 74, 75, 76, 77, 78, 79]" by (simp only: e)
    moreover from tie_part7
    have "list_all (\<lambda>j. tieValue j = (if j \<in> {14, 28, 56, 57} then j else j + 1)) [70, 71, 72, 73, 74, 75, 76, 77, 78, 79]"
      by simp
    ultimately show ?thesis by (simp only: list_all_iff)
  next
    case 9
    have e: "[80..89] = [80, 81, 82, 83, 84, 85, 86, 87, 88, 89]" by (simp add: upto_rec1)
    from 9 have "k \<in> set [80..89]" by (simp only: set_upto atLeastAtMost_iff)
    then have "k \<in> set [80, 81, 82, 83, 84, 85, 86, 87, 88, 89]" by (simp only: e)
    moreover from tie_part8
    have "list_all (\<lambda>j. tieValue j = (if j \<in> {14, 28, 56, 57} then j else j + 1)) [80, 81, 82, 83, 84, 85, 86, 87, 88, 89]"
      by simp
    ultimately show ?thesis by (simp only: list_all_iff)
  next
    case 10
    have e: "[90..99] = [90, 91, 92, 93, 94, 95, 96, 97, 98, 99]" by (simp add: upto_rec1)
    from 10 have "k \<in> set [90..99]" by (simp only: set_upto atLeastAtMost_iff)
    then have "k \<in> set [90, 91, 92, 93, 94, 95, 96, 97, 98, 99]" by (simp only: e)
    moreover from tie_part9
    have "list_all (\<lambda>j. tieValue j = (if j \<in> {14, 28, 56, 57} then j else j + 1)) [90, 91, 92, 93, 94, 95, 96, 97, 98, 99]"
      by simp
    ultimately show ?thesis by (simp only: list_all_iff)
  qed
qed

lemma roundHalfEven_ratio:
  assumes b: "b > 0" and d: "d > 0" and eq: "a * d = c * b"
  shows "roundHalfEven a b = roundHalfEven c d"
proof -
  have bq: "(0::rat) < of_int b" and dq: "(0::rat) < of_int d" using b d by simp_all
  have "(of_int (a * d) :: rat) = of_int (c * b)" using eq by simp
  then have ratio: "(of_int a :: rat) / of_int b = of_int c / of_int d"
    using bq dq by (simp add: field_simps)
  have "a div b = \<lfloor>(of_int a :: rat) / of_int b\<rfloor>" by (simp only: floor_divide_of_int_eq)
  also have "\<dots> = c div d" unfolding ratio by (simp only: floor_divide_of_int_eq)
  finally have q: "a div b = c div d" .
  define q where "q = a div b"
  have ra: "a mod b = a - q * b" by (simp add: q_def minus_div_mult_eq_mod)
  have rc: "c mod d = c - q * d" using q by (simp add: q_def minus_div_mult_eq_mod)
  have cross: "(a mod b) * d = (c mod d) * b"
    unfolding ra rc using eq by (simp add: algebra_simps)
  have lt: "2 * (a mod b) < b \<longleftrightarrow> 2 * (c mod d) < d"
  proof -
    have "2 * (a mod b) < b \<longleftrightarrow> (2 * (a mod b)) * d < b * d"
      using d by simp
    also have "(2 * (a mod b)) * d = (2 * (c mod d)) * b" using cross by simp
    also have "(2 * (c mod d)) * b < b * d \<longleftrightarrow> 2 * (c mod d) < d"
      using b by (simp add: mult.commute)
    finally show ?thesis .
  qed
  have gt: "2 * (a mod b) > b \<longleftrightarrow> 2 * (c mod d) > d"
  proof -
    have "2 * (a mod b) > b \<longleftrightarrow> (2 * (a mod b)) * d > b * d"
      using d by simp
    also have "(2 * (a mod b)) * d = (2 * (c mod d)) * b" using cross by simp
    also have "(2 * (c mod d)) * b > b * d \<longleftrightarrow> 2 * (c mod d) > d"
      using b by (simp add: mult.commute)
    finally show ?thesis .
  qed
  show ?thesis
    unfolding roundHalfEven_def Let_def using q lt gt by simp
qed

lemma powi_mono: "e1 \<le> e2 \<Longrightarrow> (2::rat) powi e1 \<le> 2 powi e2"
  by (rule power_int_increasing) simp_all

lemma ilog2_unique:
  assumes "a > 0" and "b > 0"
    and lo: "(2::rat) powi e \<le> of_int a / of_int b" and hi: "of_int a / of_int b < (2::rat) powi (e + 1)"
  shows "ilog2 a b = e"
proof (rule ccontr)
  assume ne: "ilog2 a b \<noteq> e"
  from ilog2_bounds [OF assms(1,2)]
  have l: "(2::rat) powi (ilog2 a b) \<le> of_int a / of_int b"
    and h: "of_int a / of_int b < (2::rat) powi (ilog2 a b + 1)" by simp_all
  from ne consider "ilog2 a b + 1 \<le> e" | "e + 1 \<le> ilog2 a b" by linarith
  then show False
  proof cases
    case 1
    from powi_mono [OF 1] h lo show False by linarith
  next
    case 2
    from powi_mono [OF 2] hi l show False by linarith
  qed
qed

lemma ilog2_ratio:
  assumes "a > 0" and "b > 0" and "c > 0" and "d > 0" and eq: "a * d = c * b"
  shows "ilog2 a b = ilog2 c d"
proof -
  have bq: "(0::rat) < of_int b" and dq: "(0::rat) < of_int d" using assms by simp_all
  have "(of_int (a * d) :: rat) = of_int (c * b)" using eq by simp
  then have ratio: "(of_int a :: rat) / of_int b = of_int c / of_int d"
    using bq dq by (simp add: field_simps)
  from ilog2_bounds [OF assms(3,4)] show ?thesis
    by (intro ilog2_unique assms(1,2)) (simp_all add: ratio)
qed

lemma roundDouble_ratio:
  assumes "a > 0" and "b > 0" and "c > 0" and "d > 0" and eq: "a * d = c * b"
  shows "roundDouble a b = roundDouble c d"
proof -
  define sh where "sh = 52 - ilog2 a b"
  have sh2: "52 - ilog2 c d = sh" using ilog2_ratio [OF assms] by (simp add: sh_def)
  have m: "(if sh \<ge> 0 then roundHalfEven (a * 2 ^ nat sh) b else roundHalfEven a (b * 2 ^ nat (- sh)))
      = (if sh \<ge> 0 then roundHalfEven (c * 2 ^ nat sh) d else roundHalfEven c (d * 2 ^ nat (- sh)))"
  proof (cases "sh \<ge> 0")
    case True
    have "roundHalfEven (a * 2 ^ nat sh) b = roundHalfEven (c * 2 ^ nat sh) d"
      using assms(2,4) eq by (intro roundHalfEven_ratio) (simp_all add: algebra_simps)
    with True show ?thesis by simp
  next
    case False
    have "roundHalfEven a (b * 2 ^ nat (- sh)) = roundHalfEven c (d * 2 ^ nat (- sh))"
      using assms(2,4) eq by (intro roundHalfEven_ratio) (simp_all add: algebra_simps)
    with False show ?thesis by simp
  qed
  have "roundDouble a b = (if sh \<ge> 0 then (roundHalfEven (a * 2 ^ nat sh) b, - sh)
                             else (roundHalfEven a (b * 2 ^ nat (- sh)), - sh))"
    using assms(1) by (simp add: roundDouble_def Let_def sh_def)
  moreover have "roundDouble c d = (if sh \<ge> 0 then (roundHalfEven (c * 2 ^ nat sh) d, - sh)
                             else (roundHalfEven c (d * 2 ^ nat (- sh)), - sh))"
    using assms(3) sh2 by (simp add: roundDouble_def Let_def)
  ultimately show ?thesis using m by (simp split: if_splits)
qed

lemma tie_rounding:
  assumes p: "0 < p" and s: "0 < s" and k: "0 \<le> k" "k < 100" and tie: "200 * p = (2 * k + 1) * s"
  shows "mathRound (fmul100 (fdiv p s)) = (if k \<in> {14, 28, 56, 57} then k else k + 1)"
proof -
  have "roundDouble p s = roundDouble (2 * k + 1) 200"
    using p s k(1) tie by (intro roundDouble_ratio) simp_all
  then have "mathRound (fmul100 (fdiv p s)) = tieValue k"
    by (simp add: fdiv_def tieValue_def)
  with tie_table [OF k] show ?thesis by simp
qed

lemma percent_exact:
  assumes p: "0 < p" and bound: "p \<le> 2 ^ 43" and s: "0 < s"
    and ok: "200 * p \<notin> {29 * s, 57 * s, 113 * s, 115 * s}"
  shows "max 0 (min 100 (mathRound (fmul100 (fdiv p s)))) =
         max 0 (min 100 ((200 * p + s) div (2 * s)))"
proof -
  define rr where "rr = mathRound (fmul100 (fdiv p s))"
  define K where "K = (200 * p + s) div (2 * s)"
  from percent_rounding [OF p bound s]
  consider "rr = K" | "(200 * p + s) mod (2 * s) = 0" "rr = K - 1"
    unfolding rr_def K_def by blast
  then have "max 0 (min 100 rr) = max 0 (min 100 K)"
  proof cases
    case 1
    then show ?thesis by simp
  next
    case 2
    from 2(1) have "200 * p + s = K * (2 * s)"
      unfolding K_def by (simp add: mod_eq_0_iff_dvd)
    then have tie: "200 * p = (2 * (K - 1) + 1) * s" by (simp add: algebra_simps)
    have kpos: "0 \<le> K - 1"
    proof (rule ccontr)
      assume "\<not> 0 \<le> K - 1"
      then have "2 * (K - 1) + 1 \<le> - 1" by simp
      then have "(2 * (K - 1) + 1) * s \<le> - 1 * s" using s by (intro mult_right_mono) simp_all
      with tie p s show False by simp
    qed
    show ?thesis
    proof (cases "K - 1 < 100")
      case True
      from tie_rounding [OF p s kpos True tie] 2(2)
      have "K - 1 \<in> {14, 28, 56, 57}" by (simp add: rr_def split: if_splits)
      with tie have "200 * p \<in> {29 * s, 57 * s, 113 * s, 115 * s}" by auto
      with ok show ?thesis by simp
    next
      case False
      with 2(2) show ?thesis by simp
    qed
  qed
  then show ?thesis by (simp add: rr_def K_def)
qed

text \<open>
  Claim C7, as the code has it. \<open>getProgressPercent\<close> returns 100 when the stage is the
  uncapped final one. For a stage with a finite cap above its minimum, and points at most
  \<open>2 ^ 43\<close> above the minimum, it returns the exact quotient
  \<open>100 * (points - min) / (max - min)\<close> rounded half up and clamped to 0 and 100, at every
  input where that quotient is not one of 14.5, 28.5, 56.5 and 57.5.
\<close>

theorem getProgressPercent_rounding:
  "(stage_max cur = None \<longrightarrow> getProgressPercent points cur = Some 100) \<and>
   (\<forall>mx. stage_max cur = Some mx \<and> stage_min cur < mx \<and> points - stage_min cur \<le> 2 ^ 43 \<and>
         \<not> lowTie points (stage_min cur) mx \<longrightarrow>
      getProgressPercent points cur = Some (exactPercent points (stage_min cur) mx) \<and>
      0 \<le> exactPercent points (stage_min cur) mx \<and> exactPercent points (stage_min cur) mx \<le> 100)"
proof (intro conjI allI impI)
  assume "stage_max cur = None"
  then show "getProgressPercent points cur = Some 100"
    by (simp add: getProgressPercent_def)
next
  fix mx
  show "0 \<le> exactPercent points (stage_min cur) mx" by (simp add: exactPercent_def)
  show "exactPercent points (stage_min cur) mx \<le> 100" by (simp add: exactPercent_def)
  assume h: "stage_max cur = Some mx \<and> stage_min cur < mx \<and> points - stage_min cur \<le> 2 ^ 43 \<and>
         \<not> lowTie points (stage_min cur) mx"
  define mn where "mn = stage_min cur"
  define rr where "rr = mathRound (fmul100 (fdiv (max 0 (points - mn)) (mx - mn)))"
  from h have mx: "stage_max cur = Some mx" and lt: "mn < mx" and b: "points - mn \<le> 2 ^ 43"
    and ok: "\<not> lowTie points mn mx"
    by (simp_all add: mn_def)
  have g: "getProgressPercent points cur = Some (max 0 (min 100 rr))"
    using mx lt by (simp add: getProgressPercent_def Let_def rr_def mn_def)
  let ?N = "200 * (points - mn) + (mx - mn)" and ?D = "2 * (mx - mn)"
  have ex: "exactPercent points mn mx = max 0 (min 100 (?N div ?D))"
    using lt by (rule exactPercent_div)
  have "max 0 (min 100 rr) = exactPercent points mn mx"
  proof (cases "points - mn > 0")
    case True
    then have rr: "rr = mathRound (fmul100 (fdiv (points - mn) (mx - mn)))"
      by (simp add: rr_def)
    from lt have s: "0 < mx - mn" by simp
    have "200 * (points - mn) \<notin>
        {29 * (mx - mn), 57 * (mx - mn), 113 * (mx - mn), 115 * (mx - mn)}"
      using ok unfolding lowTie_def .
    from percent_exact [OF True b s this] show ?thesis by (simp only: rr ex)
  next
    case False
    then have "rr = 0" by (simp add: rr_def zero_progress)
    moreover have "?N div ?D \<le> 0"
    proof -
      from False lt have "?N \<le> ?D - 1" by simp
      with lt have "?N div ?D \<le> (?D - 1) div ?D" by (intro zdiv_mono1) simp_all
      also have "(?D - 1) div ?D = 0" using lt by (intro div_pos_pos_trivial) simp_all
      finally show ?thesis .
    qed
    ultimately show ?thesis by (simp add: ex)
  qed
  then show "getProgressPercent points cur = Some (exactPercent points (stage_min cur) mx)"
    unfolding g mn_def by simp
qed

lemma beginner2: "beginnerTwo =
    \<lparr> rank = beginner, stage = 2, label = ''Beginner 2'', stage_min = 100, stage_max = Some 300 \<rparr>"
  by (simp add: beginnerTwo_def STAGES_def)

lemma master3: "masterThree =
    \<lparr> rank = master, stage = 3, label = ''Master 3'', stage_min = 18000, stage_max = None \<rparr>"
  by (simp add: masterThree_def STAGES_def)

lemma beginnerTwo_percent:
  "0 < p \<Longrightarrow> getProgressPercent (100 + p) beginnerTwo =
     Some (max 0 (min 100 (mathRound (fmul100 (fdiv p 200)))))"
  by (simp add: beginner2 getProgressPercent_def Let_def)

lemma beginnerTwo_exact:
  "exactPercent (100 + p) 100 300 = max 0 (min 100 ((200 * p + 200) div 400))"
proof -
  have "exactPercent (100 + p) 100 300 =
      max 0 (min 100 ((200 * ((100 + p) - 100) + (300 - 100)) div (2 * (300 - 100))))"
    by (rule exactPercent_div) simp
  then show ?thesis by simp
qed

theorem getProgressPercent_rounding_witness:
  "stage_max masterThree = None \<and> getProgressPercent 20000 masterThree = Some 100 \<and>
   stage_max beginnerTwo = Some 300 \<and> stage_min beginnerTwo < 300 \<and>
   101 - stage_min beginnerTwo \<le> 2 ^ 43 \<and> \<not> lowTie 101 (stage_min beginnerTwo) 300 \<and>
   getProgressPercent 101 beginnerTwo = Some (exactPercent 101 (stage_min beginnerTwo) 300) \<and>
   exactPercent 101 (stage_min beginnerTwo) 300 = 1"
proof -
  have a: "stage_max masterThree = None" by (simp add: master3)
  have b: "stage_max beginnerTwo = Some 300" by (simp add: beginner2)
  have c: "stage_min beginnerTwo < 300" by (simp add: beginner2)
  have d: "101 - stage_min beginnerTwo \<le> 2 ^ 43" by (simp add: beginner2)
  have e: "\<not> lowTie 101 (stage_min beginnerTwo) 300" by (simp add: beginner2 lowTie_def)
  have f: "exactPercent 101 (stage_min beginnerTwo) 300 = 1"
    using beginnerTwo_exact [of 1] by (simp add: beginner2)
  from getProgressPercent_rounding [of masterThree 20000] a
  have g: "getProgressPercent 20000 masterThree = Some 100" by blast
  from getProgressPercent_rounding [of beginnerTwo 101] b c d e
  have h: "getProgressPercent 101 beginnerTwo = Some (exactPercent 101 (stage_min beginnerTwo) 300)"
    by blast
  from a b c d e f g h show ?thesis by blast
qed

text \<open>
  The claim as written gives 0 for the uncapped stage, and the exact rounding everywhere
  else. The uncapped stage Master 3 gives 100. In Beginner 2 (from 100 to 300) the points
  129, 157, 213 and 215 have the exact quotients 14.5, 28.5, 56.5 and 57.5, which round
  half up to 15, 29, 57 and 58; the double quotient times 100 falls just below the half
  there, and the results are 14, 28, 56 and 57.
\<close>

theorem getProgressPercent_counterexample:
  "stage_max masterThree = None \<and> getProgressPercent 20000 masterThree = Some 100 \<and>
   getProgressPercent 20000 masterThree \<noteq> Some 0 \<and>
   stage_max beginnerTwo = Some 300 \<and> stage_min beginnerTwo = 100 \<and>
   getProgressPercent 129 beginnerTwo = Some 14 \<and> exactPercent 129 100 300 = 15 \<and>
   getProgressPercent 157 beginnerTwo = Some 28 \<and> exactPercent 157 100 300 = 29 \<and>
   getProgressPercent 213 beginnerTwo = Some 56 \<and> exactPercent 213 100 300 = 57 \<and>
   getProgressPercent 215 beginnerTwo = Some 57 \<and> exactPercent 215 100 300 = 58"
proof -
  have t: "tieValue 14 = 14" "tieValue 28 = 28" "tieValue 56 = 56" "tieValue 57 = 57"
    using tie_part1 tie_part2 tie_part5 by simp_all
  have "getProgressPercent 129 beginnerTwo = Some 14" "getProgressPercent 157 beginnerTwo = Some 28"
    "getProgressPercent 213 beginnerTwo = Some 56" "getProgressPercent 215 beginnerTwo = Some 57"
    using beginnerTwo_percent [of 29] beginnerTwo_percent [of 57] beginnerTwo_percent [of 113]
      beginnerTwo_percent [of 115] t
    by (simp_all add: tieValue_def)
  moreover have "exactPercent 129 100 300 = 15" "exactPercent 157 100 300 = 29"
    "exactPercent 213 100 300 = 57" "exactPercent 215 100 300 = 58"
    using beginnerTwo_exact [of 29] beginnerTwo_exact [of 57] beginnerTwo_exact [of 113]
      beginnerTwo_exact [of 115]
    by simp_all
  moreover have "getProgressPercent 20000 masterThree = Some 100"
    by (simp add: master3 getProgressPercent_def)
  ultimately show ?thesis by (simp add: beginner2 master3)
qed

end
